theory Spec2Isabelle
  imports Complex_Main "HOL-Library.AList"
begin

section \<open>Python values that reach the engine\<close>

text \<open>
  The reducer of \<^verbatim>\<open>septago_crossword/engine.py\<close> reads its event payload with
  \<^verbatim>\<open>payload.get\<close> and passes what it finds through \<^verbatim>\<open>str(...)\<close> and
  \<^verbatim>\<open>int(...)\<close>. A payload value is therefore modelled by the Python values a
  JSON event can carry: \<open>None\<close>, booleans, integers and strings. Every other value
  (a float, a list, a nested object) is \<open>POther r s\<close>, described by the only two
  things the engine observes of it: \<open>r\<close>, the result of \<^verbatim>\<open>int(v)\<close>
  (\<open>None\<close> when the conversion raises, which the engine catches), and \<open>s\<close>, the
  result of \<^verbatim>\<open>str(v)\<close>.

  Strings are read as ASCII text: \<open>py_upper\<close> and \<open>py_isspace\<close> follow Python on
  the code points below 128 and leave every other character alone. The
  interpreter's limit on the number of digits of an integer conversion is not
  modelled.
\<close>

datatype py_error = KeyError

datatype pyval = PNone | PBool bool | PInt int | PStr string | POther "int option" string

definition py_isspace :: "char \<Rightarrow> bool" where
  "py_isspace c = (let n = (of_char c :: nat) in (9 \<le> n \<and> n \<le> 13) \<or> (28 \<le> n \<and> n \<le> 32))"

definition py_strip :: "string \<Rightarrow> string" where
  "py_strip s = rev (dropWhile py_isspace (rev (dropWhile py_isspace s)))"

definition upper_char :: "char \<Rightarrow> char" where
  "upper_char c = (let n = (of_char c :: nat) in if 97 \<le> n \<and> n \<le> 122 then char_of (n - 32) else c)"

definition py_upper :: "string \<Rightarrow> string" where
  "py_upper s = map upper_char s"

definition is_digit :: "char \<Rightarrow> bool" where
  "is_digit c = (let n = (of_char c :: nat) in 48 \<le> n \<and> n \<le> 57)"

definition digit_val :: "char \<Rightarrow> nat" where
  "digit_val c = (of_char c :: nat) - 48"

definition digit_char :: "nat \<Rightarrow> char" where
  "digit_char n = char_of (48 + n)"

fun show_nat :: "nat \<Rightarrow> string" where
  "show_nat n = (if n < 10 then [digit_char n] else show_nat (n div 10) @ [digit_char (n mod 10)])"

declare show_nat.simps [simp del]

text \<open>Decimal digits with single underscores between them, as \<^verbatim>\<open>int(str)\<close> accepts.\<close>

fun py_digits :: "nat \<Rightarrow> string \<Rightarrow> nat option" where
  "py_digits acc [] = Some acc"
| "py_digits acc (c # cs) =
     (if c = CHR ''_'' then
        (case cs of [] \<Rightarrow> None | d # _ \<Rightarrow> if is_digit d then py_digits acc cs else None)
      else if is_digit c then py_digits (10 * acc + digit_val c) cs
      else None)"

definition py_nat_of_str :: "string \<Rightarrow> nat option" where
  "py_nat_of_str s = (case s of [] \<Rightarrow> None | c # _ \<Rightarrow> if is_digit c then py_digits 0 s else None)"

definition py_int_of_str :: "string \<Rightarrow> int option" where
  "py_int_of_str s =
     (case py_strip s of
        [] \<Rightarrow> None
      | c # cs \<Rightarrow>
          if c = CHR ''-'' then map_option (\<lambda>n. - int n) (py_nat_of_str cs)
          else if c = CHR ''+'' then map_option int (py_nat_of_str cs)
          else map_option int (py_nat_of_str (c # cs)))"

text \<open>\<^verbatim>\<open>str(v)\<close>.\<close>

fun py_str :: "pyval \<Rightarrow> string" where
  "py_str PNone = ''None''"
| "py_str (PBool b) = (if b then ''True'' else ''False'')"
| "py_str (PInt i) = (if i < 0 then CHR ''-'' # show_nat (nat (- i)) else show_nat (nat i))"
| "py_str (PStr s) = s"
| "py_str (POther r s) = s"

text \<open>\<^verbatim>\<open>int(v)\<close>; \<open>None\<close> when Python raises (TypeError, ValueError, OverflowError).\<close>

fun py_int :: "pyval \<Rightarrow> int option" where
  "py_int PNone = None"
| "py_int (PBool b) = Some (if b then 1 else 0)"
| "py_int (PInt i) = Some i"
| "py_int (PStr s) = py_int_of_str s"
| "py_int (POther r s) = r"

text \<open>\<^verbatim>\<open>d.get(k, default)\<close> on a dictionary that is only read.\<close>

definition get :: "('k \<rightharpoonup> 'v) \<Rightarrow> 'k \<Rightarrow> 'v \<Rightarrow> 'v" where
  "get d k dflt = (case d k of None \<Rightarrow> dflt | Some v \<Rightarrow> v)"

text \<open>
  A dictionary whose order of keys matters, or that is rebuilt by the engine, is an
  association list in insertion order; \<open>d[k] = v\<close> is \<open>AList.update k v d\<close>, which
  overwrites in place or appends. \<open>lookup\<close> is \<^verbatim>\<open>d[k]\<close>, raising KeyError.
\<close>

definition lookup :: "('k \<times> 'v) list \<Rightarrow> 'k \<Rightarrow> py_error + 'v" where
  "lookup d k = (case map_of d k of None \<Rightarrow> Inl KeyError | Some v \<Rightarrow> Inr v)"

definition has_key :: "('k \<times> 'v) list \<Rightarrow> 'k \<Rightarrow> bool" where
  "has_key d k = (map_of d k \<noteq> None)"

definition get_al :: "('k \<times> 'v) list \<Rightarrow> 'k \<Rightarrow> 'v \<Rightarrow> 'v" where
  "get_al d k dflt = (case map_of d k of None \<Rightarrow> dflt | Some v \<Rightarrow> v)"

fun traverse :: "('a \<Rightarrow> py_error + 'b) \<Rightarrow> 'a list \<Rightarrow> py_error + 'b list" where
  "traverse f [] = Inr []"
| "traverse f (x # xs) =
     (case f x of
        Inl e \<Rightarrow> Inl e
      | Inr y \<Rightarrow> (case traverse f xs of Inl e \<Rightarrow> Inl e | Inr ys \<Rightarrow> Inr (y # ys)))"

section \<open>Geometry (geometry.py)\<close>

type_synonym Cell = "int \<times> int"
type_synonym GridBarId = string
type_synonym Pos = "GridBarId \<times> int"

record GridSpec =
  size_grid :: int
  playable_mask :: "bool list list"
  bars :: "(GridBarId \<times> Cell list) list"
  cell_to_positions :: "(Cell \<times> Pos list) list"
  cross_map :: "(Pos \<times> Pos) list"
  intersections :: "Pos list"
  bar_lengths :: "(GridBarId \<times> int) list"

text \<open>\<^verbatim>\<open>cell_to_positions.setdefault(cell, []).append(p)\<close>.\<close>

definition setdefault_append :: "('k \<times> 'v list) list \<Rightarrow> 'k \<Rightarrow> 'v \<Rightarrow> ('k \<times> 'v list) list" where
  "setdefault_append d k p = AList.update k (get_al d k [] @ [p]) d"

definition build_cell_to_positions :: "(GridBarId \<times> Cell list) list \<Rightarrow> (Cell \<times> Pos list) list" where
  "build_cell_to_positions bs =
     fold (\<lambda>(bid, cells) m.
             fold (\<lambda>(i, cell) m'. setdefault_append m' cell (bid, int i)) (List.enumerate 0 cells) m)
          bs []"

definition build_cross_map :: "(Cell \<times> Pos list) list \<Rightarrow> (Pos \<times> Pos) list" where
  "build_cross_map c2p =
     fold (\<lambda>(cell, pos_list) cm.
             if length pos_list \<noteq> 2 then cm
             else (let a = pos_list ! 0; b = pos_list ! 1
                   in AList.update b a (AList.update a b cm)))
          c2p []"

definition build_grid_spec :: GridSpec where
  "build_grid_spec =
     (let size = (7 :: int);
          playable_rows = [1, 3, 5 :: int];
          playable_cols = [1, 3, 5 :: int];
          playable_mask =
            map (\<lambda>r. map (\<lambda>c. r \<in> set playable_rows \<or> c \<in> set playable_cols) [0 .. size - 1])
                [0 .. size - 1];
          bars = [(''h1'', map (\<lambda>c. (1, c)) [0 .. size - 1]),
                  (''h2'', map (\<lambda>c. (3, c)) [0 .. size - 1]),
                  (''h3'', map (\<lambda>c. (5, c)) [0 .. size - 1]),
                  (''v1'', map (\<lambda>r. (r, 1)) [0 .. size - 1]),
                  (''v2'', map (\<lambda>r. (r, 3)) [0 .. size - 1]),
                  (''v3'', map (\<lambda>r. (r, 5)) [0 .. size - 1])];
          cell_to_positions = build_cell_to_positions bars;
          cross_map = build_cross_map cell_to_positions;
          intersections =
            concat (map (\<lambda>(r, h). map (\<lambda>c. (h, c)) [1, 3, 5 :: int])
                        [(1 :: int, ''h1''), (3, ''h2''), (5, ''h3'')]);
          bar_lengths = map (\<lambda>(bid, cells). (bid, int (length cells))) bars
      in \<lparr> size_grid = size, playable_mask = playable_mask, bars = bars,
           cell_to_positions = cell_to_positions, cross_map = cross_map,
           intersections = intersections, bar_lengths = bar_lengths \<rparr>)"

section \<open>Game state and events (engine.py)\<close>

datatype BarScope = Grid | Hidden
datatype Direction = Horizontal | Vertical

record BarRef =
  scope_ref :: BarScope
  bar_id_ref :: string
  length_ref :: int

record ActiveRef =
  scope :: BarScope
  bar_id :: string
  index :: int
  direction :: Direction

record GridEvent =
  type_ev :: string
  payload :: "string \<rightharpoonup> pyval"

record GameState =
  puzzle_id :: string
  state_id :: string
  grid_cells :: "(GridBarId \<times> string list) list"
  hidden_cells :: "(string \<times> string list) list"
  active :: ActiveRef
  clue_order :: "BarRef list"
  start_time :: real
  last_client_seq :: int
  last_action :: string

text \<open>
  The two effects of the engine, \<^verbatim>\<open>uuid.uuid4()\<close> and \<^verbatim>\<open>time.time()\<close>, are
  inputs of the model: every call of \<open>init_state\<close> or \<open>reduce\<close> is given the
  identifier and the clock reading it would draw.
\<close>

record Env =
  uuid4 :: string
  time_now :: real

text \<open>
  Of a \<^verbatim>\<open>Puzzle\<close> the engine reads \<^verbatim>\<open>meta\<close>, \<^verbatim>\<open>answers["hidden"]\<close> and
  \<^verbatim>\<open>filename\<close>. An answer is a list of values or anything else.
\<close>

datatype answer = Word pyval | Words "pyval list"

record Puzzle =
  meta :: "string \<rightharpoonup> pyval"
  answers :: "string \<rightharpoonup> answer"
  filename :: string

definition GRID_ORDER :: "GridBarId list" where
  "GRID_ORDER = [''h1'', ''h2'', ''h3'', ''v1'', ''v2'', ''v3'']"

definition bar_direction :: "string \<Rightarrow> Direction" where
  "bar_direction b =
     (if b \<in> set [''h1'', ''h2'', ''h3''] then Horizontal
      else if b \<in> set [''v1'', ''v2'', ''v3''] then Vertical
      else Horizontal)"

fun first_empty_from :: "nat \<Rightarrow> string list \<Rightarrow> int" where
  "first_empty_from i [] = 0"
| "first_empty_from i (ch # cells) = (if ch = [] then int i else first_empty_from (Suc i) cells)"

definition first_empty_index :: "string list \<Rightarrow> int" where
  "first_empty_index cells = first_empty_from 0 cells"

definition clamp :: "int \<Rightarrow> int \<Rightarrow> int \<Rightarrow> int" where
  "clamp i lo hi = max lo (min hi i)"

definition hidden_answers_of :: "Puzzle \<Rightarrow> pyval list" where
  "hidden_answers_of puzzle =
     (case answers puzzle ''hidden'' of
        Some (Words ws) \<Rightarrow> if ws = [] then [PStr []] else ws
      | Some (Word w) \<Rightarrow> [PStr []]
      | None \<Rightarrow> [PStr []])"

definition init_hidden_cells :: "pyval list \<Rightarrow> (string \<times> string list) list" where
  "init_hidden_cells hidden_answers =
     fold (\<lambda>(i, word) hc. AList.update (''hidden'' @ show_nat i) (replicate (length (py_str word)) []) hc)
          (List.enumerate 1 hidden_answers) []"

definition init_state :: "Env \<Rightarrow> Puzzle \<Rightarrow> GridSpec \<Rightarrow> py_error + GameState" where
  "init_state env puzzle grid =
     (case traverse (\<lambda>bid. case lookup (bar_lengths grid) bid of
                              Inl e \<Rightarrow> Inl e
                            | Inr n \<Rightarrow> Inr (bid, replicate (nat n) [])) GRID_ORDER of
        Inl e \<Rightarrow> Inl e
      | Inr grid_cells0 \<Rightarrow>
          (let hidden_cells0 = init_hidden_cells (hidden_answers_of puzzle)
           in case traverse (\<lambda>bid. case lookup (bar_lengths grid) bid of
                                     Inl e \<Rightarrow> Inl e
                                   | Inr n \<Rightarrow> Inr \<lparr> scope_ref = Grid, bar_id_ref = bid, length_ref = n \<rparr>)
                            GRID_ORDER of
                Inl e \<Rightarrow> Inl e
              | Inr grid_refs \<Rightarrow>
                  Inr \<lparr> puzzle_id = py_str (get (meta puzzle) ''id'' (PStr (filename puzzle))),
                        state_id = uuid4 env,
                        grid_cells = grid_cells0,
                        hidden_cells = hidden_cells0,
                        active = \<lparr> scope = Grid, bar_id = ''h1'', index = 0, direction = Horizontal \<rparr>,
                        clue_order = grid_refs @
                          map (\<lambda>(hid, arr). \<lparr> scope_ref = Hidden, bar_id_ref = hid,
                                               length_ref = int (length arr) \<rparr>) hidden_cells0,
                        start_time = time_now env,
                        last_client_seq = 0,
                        last_action = ''init'' \<rparr>))"

section \<open>The reducer\<close>

definition on_move :: "GameState \<Rightarrow> int \<Rightarrow> GameState" where
  "on_move state step =
     (let a = active state;
          cells = (if scope a = Grid then get_al (grid_cells state) (bar_id a) []
                   else get_al (hidden_cells state) (bar_id a) [])
      in if cells = [] then state\<lparr>last_action := ''move:empty''\<rparr>
         else (let nxt = clamp (index a + step) 0 (int (length cells) - 1)
               in if nxt = index a then state\<lparr>last_action := ''move:edge''\<rparr>
                  else state\<lparr>active := a\<lparr>index := nxt\<rparr>, last_action := ''move''\<rparr>))"

text \<open>
  The index block of \<^verbatim>\<open>_on_set_active\<close>: without an index the first empty cell,
  otherwise \<^verbatim>\<open>int(idx_raw)\<close> (0 when it raises) clamped to the bar.
\<close>

definition chosen_index :: "pyval \<Rightarrow> string list \<Rightarrow> int" where
  "chosen_index idx_raw cells =
     (if idx_raw = PNone then first_empty_index cells
      else clamp (case py_int idx_raw of None \<Rightarrow> 0 | Some i \<Rightarrow> i)
                 0 (max 0 (int (length cells) - 1)))"

definition on_set_active :: "GameState \<Rightarrow> (string \<rightharpoonup> pyval) \<Rightarrow> py_error + GameState" where
  "on_set_active state pl =
     (let scope0 = py_str (get pl ''scope'' (PStr ''grid''));
          bar_id0 = py_str (get pl ''bar_id'' (PStr ''h1''));
          idx_raw = get pl ''index'' PNone;
          scope1 = (if scope0 \<notin> set [''grid'', ''hidden''] then ''grid'' else scope0);
          chosen =
            (if scope1 = ''grid'' then
               (let bar_id1 = (if \<not> has_key (grid_cells state) bar_id0 then ''h1'' else bar_id0)
                in case lookup (grid_cells state) bar_id1 of
                     Inl e \<Rightarrow> Inl e
                   | Inr cells \<Rightarrow> Inr (Grid, bar_id1, cells, bar_direction bar_id1))
             else
               (let bar_id1 = (if \<not> has_key (hidden_cells state) bar_id0
                               then (case hidden_cells state of [] \<Rightarrow> ''hidden1'' | (k, _) # _ \<Rightarrow> k)
                               else bar_id0)
                in Inr (Hidden, bar_id1, get_al (hidden_cells state) bar_id1 [], Horizontal)))
      in case chosen of
           Inl e \<Rightarrow> Inl e
         | Inr (scope2, bar_id2, cells, direction2) \<Rightarrow>
             (let idx = chosen_index idx_raw cells
              in Inr (state\<lparr>active := \<lparr> scope = scope2, bar_id = bar_id2, index = idx,
                                        direction = direction2 \<rparr>,
                            last_action := ''set_active''\<rparr>)))"

definition norm_letter :: "(string \<rightharpoonup> pyval) \<Rightarrow> string" where
  "norm_letter pl = py_strip (py_upper (py_str (get pl ''letter'' (PStr []))))"

definition is_AZ :: "string \<Rightarrow> bool" where
  "is_AZ letter = (length letter = 1 \<and> 65 \<le> (of_char (hd letter) :: nat) \<and> (of_char (hd letter) :: nat) \<le> 90)"

text \<open>
  The block of \<^verbatim>\<open>_on_input_letter\<close> under ``Cross-link at intersections'': the
  letter just written at \<open>(b, idx)\<close> is copied to the paired position. The default
  of \<^verbatim>\<open>new_grid.get\<close> is evaluated before the call, so a partner bar missing from
  \<^verbatim>\<open>bar_lengths\<close> raises KeyError.
\<close>

definition cross_link ::
  "GridSpec \<Rightarrow> GridBarId \<Rightarrow> int \<Rightarrow> string \<Rightarrow> (GridBarId \<times> string list) list
     \<Rightarrow> py_error + (GridBarId \<times> string list) list" where
  "cross_link grid b idx letter new_grid =
     (case map_of (cross_map grid) (b, idx) of
        None \<Rightarrow> Inr new_grid
      | Some (other_bar, other_idx) \<Rightarrow>
          (case lookup (bar_lengths grid) other_bar of
             Inl e \<Rightarrow> Inl e
           | Inr n \<Rightarrow>
               (let other_arr = get_al new_grid other_bar (replicate (nat n) [])
                in if 0 \<le> other_idx \<and> other_idx < int (length other_arr)
                   then Inr (AList.update other_bar (other_arr[nat other_idx := letter]) new_grid)
                   else Inr new_grid)))"

definition on_input_letter :: "GameState \<Rightarrow> (string \<rightharpoonup> pyval) \<Rightarrow> GridSpec \<Rightarrow> py_error + GameState" where
  "on_input_letter state pl grid =
     (let letter = norm_letter pl
      in if length letter \<noteq> 1 \<or> \<not> is_AZ letter then Inr (state\<lparr>last_action := ''input:ignored''\<rparr>)
         else
          (let a = active state; b = bar_id a; idx = index a
           in if scope a = Hidden then
                (if \<not> has_key (hidden_cells state) b
                 then Inr (state\<lparr>last_action := ''input:hidden_missing''\<rparr>)
                 else (let arr = get_al (hidden_cells state) b []
                       in if idx < 0 \<or> idx \<ge> int (length arr)
                          then Inr (state\<lparr>last_action := ''input:oob''\<rparr>)
                          else Inr (on_move
                                 (state\<lparr>hidden_cells := AList.update b (arr[nat idx := letter]) (hidden_cells state),
                                        last_action := ''input:hidden''\<rparr>) 1)))
              else
                (if \<not> has_key (grid_cells state) b
                 then Inr (state\<lparr>last_action := ''input:grid_missing''\<rparr>)
                 else (let arr = get_al (grid_cells state) b []
                       in if idx < 0 \<or> idx \<ge> int (length arr)
                          then Inr (state\<lparr>last_action := ''input:oob''\<rparr>)
                          else
                           (let new_grid = AList.update b (arr[nat idx := letter]) (grid_cells state)
                            in case cross_link grid b idx letter new_grid of
                                 Inl e \<Rightarrow> Inl e
                               | Inr new_grid' \<Rightarrow>
                                   Inr (on_move (state\<lparr>grid_cells := new_grid',
                                                       last_action := ''input:grid''\<rparr>) 1))))))"

definition clear_at ::
  "GridSpec \<Rightarrow> GridBarId \<Rightarrow> int \<Rightarrow> (GridBarId \<times> string list) list \<Rightarrow> py_error + (GridBarId \<times> string list) list" where
  "clear_at grid b i gc =
     (case lookup (bar_lengths grid) b of
        Inl e \<Rightarrow> Inl e
      | Inr n \<Rightarrow>
          (let a2 = get_al gc b (replicate (nat n) [])
           in if 0 \<le> i \<and> i < int (length a2) then Inr (AList.update b (a2[nat i := []]) gc)
              else Inr gc))"

definition clear_with_partner ::
  "GridSpec \<Rightarrow> GridBarId \<Rightarrow> int \<Rightarrow> (GridBarId \<times> string list) list \<Rightarrow> py_error + (GridBarId \<times> string list) list" where
  "clear_with_partner grid b i gc =
     (case clear_at grid b i gc of
        Inl e \<Rightarrow> Inl e
      | Inr out \<Rightarrow>
          (case map_of (cross_map grid) (b, i) of
             None \<Rightarrow> Inr out
           | Some (ob, oi) \<Rightarrow> clear_at grid ob oi out))"

definition on_backspace :: "GameState \<Rightarrow> GridSpec \<Rightarrow> py_error + GameState" where
  "on_backspace state grid =
     (let a = active state; b = bar_id a; idx0 = index a
      in if scope a = Hidden then
           (if \<not> has_key (hidden_cells state) b
            then Inr (state\<lparr>last_action := ''bksp:hidden_missing''\<rparr>)
            else (let arr = get_al (hidden_cells state) b []
                  in if arr = [] then Inr (state\<lparr>last_action := ''bksp:hidden_empty''\<rparr>)
                     else (let idx = clamp idx0 0 (int (length arr) - 1)
                           in if arr ! nat idx \<noteq> [] then
                                Inr (state\<lparr>hidden_cells := AList.update b (arr[nat idx := []]) (hidden_cells state),
                                           last_action := ''bksp:hidden_clear''\<rparr>)
                              else if idx > 0 then
                                (let idx2 = idx - 1
                                 in Inr (state\<lparr>hidden_cells := AList.update b (arr[nat idx2 := []]) (hidden_cells state),
                                              active := a\<lparr>index := idx2\<rparr>,
                                              last_action := ''bksp:hidden_prev_clear''\<rparr>))
                              else Inr (state\<lparr>last_action := ''bksp:hidden_edge''\<rparr>))))
         else
           (if \<not> has_key (grid_cells state) b
            then Inr (state\<lparr>last_action := ''bksp:grid_missing''\<rparr>)
            else (let arr = get_al (grid_cells state) b []
                  in if arr = [] then Inr (state\<lparr>last_action := ''bksp:grid_empty''\<rparr>)
                     else (let idx = clamp idx0 0 (int (length arr) - 1)
                           in if arr ! nat idx \<noteq> [] then
                                (case clear_with_partner grid b idx (grid_cells state) of
                                   Inl e \<Rightarrow> Inl e
                                 | Inr new_grid \<Rightarrow>
                                     Inr (state\<lparr>grid_cells := new_grid, last_action := ''bksp:grid_clear''\<rparr>))
                              else if idx > 0 then
                                (let idx2 = idx - 1
                                 in case clear_with_partner grid b idx2 (grid_cells state) of
                                      Inl e \<Rightarrow> Inl e
                                    | Inr new_grid \<Rightarrow>
                                        Inr (state\<lparr>grid_cells := new_grid,
                                                   active := a\<lparr>index := idx2\<rparr>,
                                                   last_action := ''bksp:grid_prev_clear''\<rparr>))
                              else Inr (state\<lparr>last_action := ''bksp:grid_edge''\<rparr>)))))"

definition on_reset :: "Env \<Rightarrow> GameState \<Rightarrow> GameState" where
  "on_reset env state =
     state\<lparr>state_id := uuid4 env,
           grid_cells := map (\<lambda>(bid, arr). (bid, map (\<lambda>_. []) arr)) (grid_cells state),
           hidden_cells := map (\<lambda>(hid, arr). (hid, map (\<lambda>_. []) arr)) (hidden_cells state),
           active := \<lparr> scope = Grid, bar_id = ''h1'', index = 0, direction = Horizontal \<rparr>,
           start_time := time_now env,
           last_client_seq := 0,
           last_action := ''reset''\<rparr>"

definition client_seq_of :: "(string \<rightharpoonup> pyval) \<Rightarrow> int option" where
  "client_seq_of pl = (let client_seq = get pl ''client_seq'' PNone
                       in if client_seq \<noteq> PNone then py_int client_seq else None)"

text \<open>
  The last statement of \<^verbatim>\<open>reduce\<close>: a sequence number that converted and is greater
  than the one of the state produced by the handler replaces it.
\<close>

definition accept_client_seq :: "int option \<Rightarrow> GameState \<Rightarrow> GameState" where
  "accept_client_seq client_seq_int out =
     (case client_seq_int of
        None \<Rightarrow> out
      | Some c \<Rightarrow> if c > last_client_seq out then out\<lparr>last_client_seq := c\<rparr> else out)"

definition reduce :: "Env \<Rightarrow> GameState \<Rightarrow> GridEvent \<Rightarrow> GridSpec \<Rightarrow> py_error + GameState" where
  "reduce env state event grid =
     (let pl = payload event;
          client_seq_int = client_seq_of pl;
          t = type_ev event;
          res = (if t = ''INPUT_LETTER'' then on_input_letter state pl grid
                 else if t = ''MOVE_NEXT'' then Inr (on_move state 1)
                 else if t = ''MOVE_PREV'' then Inr (on_move state (- 1))
                 else if t = ''SET_ACTIVE_BAR'' then on_set_active state pl
                 else if t = ''BACKSPACE'' then on_backspace state grid
                 else if t = ''RESET'' then Inr (on_reset env state)
                 else if t = ''TICK'' then Inr state
                 else Inr (state\<lparr>last_action := ''ignored:'' @ t\<rparr>))
      in case res of
           Inl e \<Rightarrow> Inl e
         | Inr out \<Rightarrow> Inr (accept_client_seq client_seq_int out))"

text \<open>A session: the events of a list reduced in order, each with its own effects.\<close>

fun reduce_all :: "GameState \<Rightarrow> (Env \<times> GridEvent) list \<Rightarrow> GridSpec \<Rightarrow> py_error + GameState" where
  "reduce_all state [] grid = Inr state"
| "reduce_all state ((env, event) # rest) grid =
     (case reduce env state event grid of
        Inl e \<Rightarrow> Inl e
      | Inr state' \<Rightarrow> reduce_all state' rest grid)"

definition session :: "Env \<Rightarrow> Puzzle \<Rightarrow> GridSpec \<Rightarrow> (Env \<times> GridEvent) list \<Rightarrow> py_error + GameState" where
  "session env puzzle grid steps =
     (case init_state env puzzle grid of
        Inl e \<Rightarrow> Inl e
      | Inr state \<Rightarrow> reduce_all state steps grid)"

section \<open>What load_puzzle guarantees (puzzle_io.py)\<close>

text \<open>
  \<^verbatim>\<open>load_puzzle\<close> is the only producer of a \<^verbatim>\<open>Puzzle\<close> in the application. It
  raises unless every grid answer is a non-empty string of A-Z of the bar's length
  and \<^verbatim>\<open>answers["hidden"]\<close> is a list of one or two non-empty strings of A-Z.
  \<open>valid_puzzle\<close> is that postcondition on the fields the engine reads.
\<close>

definition validate_letters_only :: "string \<Rightarrow> bool" where
  "validate_letters_only s = list_all (\<lambda>ch. 65 \<le> (of_char ch :: nat) \<and> (of_char ch :: nat) \<le> 90) s"

definition valid_puzzle :: "GridSpec \<Rightarrow> Puzzle \<Rightarrow> bool" where
  "valid_puzzle grid puzzle =
     (list_all (\<lambda>bid. case answers puzzle bid of
                        Some (Word (PStr ans)) \<Rightarrow>
                          ans \<noteq> [] \<and> validate_letters_only ans \<and>
                          lookup (bar_lengths grid) bid = Inr (int (length ans))
                      | _ \<Rightarrow> False) GRID_ORDER \<and>
      (case answers puzzle ''hidden'' of
         Some (Words hidden) \<Rightarrow>
           (length hidden = 1 \<or> length hidden = 2) \<and>
           list_all (\<lambda>hw. case hw of PStr w \<Rightarrow> w \<noteq> [] \<and> validate_letters_only w | _ \<Rightarrow> False) hidden
       | _ \<Rightarrow> False))"

section \<open>Observations and invariants of the data model\<close>

text \<open>
  \<open>cell_of d b i\<close> is the read \<^verbatim>\<open>d[b][i]\<close> for an index counted from the front:
  \<open>None\<close> when the bar is missing or the index is outside the bar.
  \<open>shape d\<close> lists the bars of \<open>d\<close> with their lengths, in order.
\<close>

definition cell_of :: "('k \<times> 'a list) list \<Rightarrow> 'k \<Rightarrow> int \<Rightarrow> 'a option" where
  "cell_of d b i =
     (case map_of d b of
        None \<Rightarrow> None
      | Some arr \<Rightarrow> if 0 \<le> i \<and> i < int (length arr) then Some (arr ! nat i) else None)"

definition shape :: "('k \<times> 'a list) list \<Rightarrow> ('k \<times> int) list" where
  "shape d = map (\<lambda>(k, arr). (k, int (length arr))) d"

definition in_bar :: "(GridBarId \<times> int) list \<Rightarrow> Pos \<Rightarrow> bool" where
  "in_bar bl p = (case map_of bl (fst p) of None \<Rightarrow> False | Some n \<Rightarrow> 0 \<le> snd p \<and> snd p < n)"

text \<open>
  The geometry invariant of the data model: the six bars in their fixed order, none
  of length zero, and a cross map that is its own inverse and stays inside the bars.
\<close>

definition grid_ok :: "GridSpec \<Rightarrow> bool" where
  "grid_ok g =
     (map fst (bar_lengths g) = GRID_ORDER \<and>
      list_all (\<lambda>(b, n). 0 < n) (bar_lengths g) \<and>
      list_all (\<lambda>(k, k'). map_of (cross_map g) k = Some k' \<and> map_of (cross_map g) k' = Some k \<and>
                          in_bar (bar_lengths g) k \<and> in_bar (bar_lengths g) k') (cross_map g))"

definition cross_sync :: "GridSpec \<Rightarrow> (GridBarId \<times> string list) list \<Rightarrow> bool" where
  "cross_sync g gc =
     list_all (\<lambda>(k, k'). cell_of gc (fst k) (snd k) = cell_of gc (fst k') (snd k')) (cross_map g)"

definition grid_inv :: "GridSpec \<Rightarrow> GameState \<Rightarrow> bool" where
  "grid_inv g s = (shape (grid_cells s) = bar_lengths g \<and> cross_sync g (grid_cells s))"

definition active_cells :: "GameState \<Rightarrow> string list option" where
  "active_cells s =
     (if scope (active s) = Grid then map_of (grid_cells s) (bar_id (active s))
      else map_of (hidden_cells s) (bar_id (active s)))"

definition active_ok :: "GameState \<Rightarrow> bool" where
  "active_ok s =
     (case active_cells s of
        None \<Rightarrow> False
      | Some arr \<Rightarrow> 0 \<le> index (active s) \<and> index (active s) < int (length arr))"

definition hidden_ok :: "(string \<times> string list) list \<Rightarrow> bool" where
  "hidden_ok hc = (hc \<noteq> [] \<and> list_all (\<lambda>(k, n). 0 < n) (shape hc))"

definition letters_ok :: "(string \<times> string list) list \<Rightarrow> bool" where
  "letters_ok d = list_all (\<lambda>(k, arr). list_all (\<lambda>ch. ch = [] \<or> is_AZ ch) arr) d"

definition direction_ok :: "GameState \<Rightarrow> bool" where
  "direction_ok s =
     (direction (active s) =
        (if scope (active s) = Grid
         then (if bar_id (active s) \<in> set [''v1'', ''v2'', ''v3''] then Vertical else Horizontal)
         else Horizontal))"

text \<open>
  The state invariant of the data model: bars and cross links as above, at least one
  hidden bar and none of length zero, a cursor on an existing cell, the direction
  that goes with the cursor's bar, and cells that are empty or one letter of A-Z.
\<close>

definition state_ok :: "GridSpec \<Rightarrow> GameState \<Rightarrow> bool" where
  "state_ok g s =
     (grid_inv g s \<and> hidden_ok (hidden_cells s) \<and> active_ok s \<and> direction_ok s \<and>
      letters_ok (grid_cells s) \<and> letters_ok (hidden_cells s))"

text \<open>
  What BACKSPACE does to the cells when it clears index \<open>t\<close> of the cursor's bar, from
  state \<open>s\<close> to state \<open>s'\<close>: in grid scope that cell and its cross-linked partner, if
  any, become empty and every other grid cell and all hidden cells stay; in hidden
  scope that cell becomes empty and every other hidden cell and all grid cells stay.
\<close>

definition cleared_at :: "GridSpec \<Rightarrow> GameState \<Rightarrow> GameState \<Rightarrow> int \<Rightarrow> bool" where
  "cleared_at g s s' t =
     (if scope (active s) = Grid then
        hidden_cells s' = hidden_cells s \<and>
        (\<forall>b' i'. cell_of (grid_cells s') b' i' =
           (if (b', i') = (bar_id (active s), t) \<or>
               map_of (cross_map g) (bar_id (active s), t) = Some (b', i')
            then Some [] else cell_of (grid_cells s) b' i'))
      else
        grid_cells s' = grid_cells s \<and>
        (\<forall>b' i'. cell_of (hidden_cells s') b' i' =
           (if (b', i') = (bar_id (active s), t) then Some []
            else cell_of (hidden_cells s) b' i')))"

section \<open>A concrete session\<close>

definition example_env :: Env where
  "example_env = \<lparr> uuid4 = ''id-0'', time_now = 0 \<rparr>"

definition example_env' :: Env where
  "example_env' = \<lparr> uuid4 = ''id-1'', time_now = 1 \<rparr>"

definition example_puzzle :: Puzzle where
  "example_puzzle =
     \<lparr> meta = Map.empty,
       answers = [''h1'' \<mapsto> Word (PStr ''ABCDEFG''), ''h2'' \<mapsto> Word (PStr ''ABCDEFG''),
                  ''h3'' \<mapsto> Word (PStr ''ABCDEFG''), ''v1'' \<mapsto> Word (PStr ''ABCDEFG''),
                  ''v2'' \<mapsto> Word (PStr ''ABCDEFG''), ''v3'' \<mapsto> Word (PStr ''ABCDEFG''),
                  ''hidden'' \<mapsto> Words [PStr ''ABC'']],
       filename = ''example.json'' \<rparr>"

definition ev :: "string \<Rightarrow> (string \<times> pyval) list \<Rightarrow> Env \<times> GridEvent" where
  "ev t kvs = (example_env', \<lparr> type_ev = t, payload = map_of kvs \<rparr>)"

section \<open>Lemmas on association lists and cells\<close>

lemma map_of_shape: "map_of (shape d) k = map_option (\<lambda>arr. int (length arr)) (map_of d k)"
  by (induction d) (auto simp: shape_def)

lemma shape_update:
  "map_of d k = Some arr \<Longrightarrow> length arr' = length arr \<Longrightarrow> shape (AList.update k arr' d) = shape d"
  by (induction d) (auto simp: shape_def)

lemma cell_of_update:
  "map_of d b = Some arr \<Longrightarrow> 0 \<le> i \<Longrightarrow> i < int (length arr) \<Longrightarrow>
   cell_of (AList.update b (arr[nat i := v]) d) b' i' =
     (if b' = b \<and> i' = i then Some v else cell_of d b' i')"
  by (auto simp: cell_of_def AList.update_conv' nth_list_update)

lemma in_bar_cells:
  assumes "shape gc = bl" and "in_bar bl (b, i)"
  obtains arr where "map_of gc b = Some arr" and "0 \<le> i" and "i < int (length arr)"
proof -
  from assms(2) obtain n where n: "map_of bl b = Some n" "0 \<le> i" "i < n"
    by (auto simp: in_bar_def split: option.splits)
  from n(1) assms(1) obtain arr where "map_of gc b = Some arr" "int (length arr) = n"
    using map_of_shape [of gc b] by (cases "map_of gc b") auto
  with n that show thesis by auto
qed

lemma cells_in_bar:
  "shape gc = bl \<Longrightarrow> map_of gc b = Some arr \<Longrightarrow> 0 \<le> i \<Longrightarrow> i < int (length arr) \<Longrightarrow> in_bar bl (b, i)"
  using map_of_shape [of gc b] by (auto simp: in_bar_def)

lemma grid_ok_pair:
  assumes "grid_ok g" and "map_of (cross_map g) k = Some k'"
  shows "map_of (cross_map g) k' = Some k" and "in_bar (bar_lengths g) k" and "in_bar (bar_lengths g) k'"
proof -
  from assms(2) have "(k, k') \<in> set (cross_map g)" by (rule map_of_SomeD)
  with assms(1) show "map_of (cross_map g) k' = Some k" "in_bar (bar_lengths g) k" "in_bar (bar_lengths g) k'"
    by (auto simp: grid_ok_def list_all_iff)
qed

lemma grid_ok_mem:
  assumes "grid_ok g" and "(k, k') \<in> set (cross_map g)"
  shows "map_of (cross_map g) k = Some k'"
  using assms by (auto simp: grid_ok_def list_all_iff)

text \<open>Writing one value at a position and at its partner keeps the cross-linked cells equal.\<close>

lemma sync_after_write:
  assumes ok: "grid_ok g" and sync: "cross_sync g gc"
    and eq: "\<forall>b' i'. cell_of gc' b' i' =
               (if (b', i') = k0 \<or> map_of (cross_map g) k0 = Some (b', i') then Some v
                else cell_of gc b' i')"
  shows "cross_sync g gc'"
  unfolding cross_sync_def list_all_iff
proof (clarify)
  fix b i b2 i2
  assume mem: "((b, i), (b2, i2)) \<in> set (cross_map g)"
  have fwd: "map_of (cross_map g) (b, i) = Some (b2, i2)"
    using ok mem by (rule grid_ok_mem)
  have bwd: "map_of (cross_map g) (b2, i2) = Some (b, i)"
    using ok fwd by (rule grid_ok_pair(1))
  have old: "cell_of gc b i = cell_of gc b2 i2"
    using sync mem by (auto simp: cross_sync_def list_all_iff)
  have touched: "((b, i) = k0 \<or> map_of (cross_map g) k0 = Some (b, i)) =
                 ((b2, i2) = k0 \<or> map_of (cross_map g) k0 = Some (b2, i2))"
    using fwd bwd grid_ok_pair(1) [OF ok] by (metis option.inject)
  show "cell_of gc' (fst (b, i)) (snd (b, i)) = cell_of gc' (fst (b2, i2)) (snd (b2, i2))"
    using touched old by (simp add: eq)
qed

lemma clear_at_ok:
  assumes "shape gc = bar_lengths g" and "in_bar (bar_lengths g) (b, i)"
  shows "\<exists>gc'. clear_at g b i gc = Inr gc' \<and> shape gc' = bar_lengths g \<and>
           (\<forall>b' i'. cell_of gc' b' i' = (if (b', i') = (b, i) then Some [] else cell_of gc b' i'))"
proof -
  from assms obtain arr where arr: "map_of gc b = Some arr" "0 \<le> i" "i < int (length arr)"
    by (rule in_bar_cells)
  from arr(1) assms(1) have bl: "map_of (bar_lengths g) b = Some (int (length arr))"
    using map_of_shape [of gc b] by simp
  have r: "clear_at g b i gc = Inr (AList.update b (arr[nat i := []]) gc)"
    using arr bl by (simp add: clear_at_def lookup_def get_al_def)
  have "shape (AList.update b (arr[nat i := []]) gc) = bar_lengths g"
    using arr(1) assms(1) by (simp add: shape_update)
  moreover have "\<forall>b' i'. cell_of (AList.update b (arr[nat i := []]) gc) b' i' =
            (if (b', i') = (b, i) then Some [] else cell_of gc b' i')"
    using arr by (simp add: cell_of_update)
  ultimately show ?thesis using r by blast
qed

lemma clear_with_partner_ok:
  assumes ok: "grid_ok g" and sh: "shape gc = bar_lengths g" and inb: "in_bar (bar_lengths g) (b, i)"
  shows "\<exists>gc'. clear_with_partner g b i gc = Inr gc' \<and> shape gc' = bar_lengths g \<and>
           (\<forall>b' i'. cell_of gc' b' i' =
              (if (b', i') = (b, i) \<or> map_of (cross_map g) (b, i) = Some (b', i') then Some []
               else cell_of gc b' i'))"
proof -
  from clear_at_ok [OF sh inb] obtain gc1 where c1: "clear_at g b i gc = Inr gc1"
    "shape gc1 = bar_lengths g"
    "\<forall>b' i'. cell_of gc1 b' i' = (if (b', i') = (b, i) then Some [] else cell_of gc b' i')"
    by blast
  show ?thesis
  proof (cases "map_of (cross_map g) (b, i)")
    case None
    then have "clear_with_partner g b i gc = Inr gc1"
      using c1(1) by (simp add: clear_with_partner_def)
    then show ?thesis using c1 None by simp
  next
    case (Some p)
    obtain ob oi where p: "p = (ob, oi)" by (cases p)
    have "in_bar (bar_lengths g) (ob, oi)"
      using grid_ok_pair(3) [OF ok] Some p by blast
    from clear_at_ok [OF c1(2) this] obtain gc2 where c2: "clear_at g ob oi gc1 = Inr gc2"
      "shape gc2 = bar_lengths g"
      "\<forall>b' i'. cell_of gc2 b' i' = (if (b', i') = (ob, oi) then Some [] else cell_of gc1 b' i')"
      by blast
    have "clear_with_partner g b i gc = Inr gc2"
      using c1(1) c2(1) Some p by (simp add: clear_with_partner_def)
    then show ?thesis using c1 c2 Some p by auto
  qed
qed

lemma cross_link_ok:
  assumes ok: "grid_ok g" and sh: "shape gc = bar_lengths g"
  shows "\<exists>gc'. cross_link g b i v gc = Inr gc' \<and> shape gc' = bar_lengths g \<and>
           (\<forall>b' i'. cell_of gc' b' i' =
              (if map_of (cross_map g) (b, i) = Some (b', i') then Some v else cell_of gc b' i'))"
proof (cases "map_of (cross_map g) (b, i)")
  case None
  then have "cross_link g b i v gc = Inr gc" by (simp add: cross_link_def)
  then show ?thesis using sh None by simp
next
  case (Some p)
  obtain ob oi where p: "p = (ob, oi)" by (cases p)
  have inb: "in_bar (bar_lengths g) (ob, oi)"
    using grid_ok_pair(3) [OF ok] Some p by blast
  from sh inb obtain arr where arr: "map_of gc ob = Some arr" "0 \<le> oi" "oi < int (length arr)"
    by (rule in_bar_cells)
  from arr(1) sh have bl: "map_of (bar_lengths g) ob = Some (int (length arr))"
    using map_of_shape [of gc ob] by simp
  have r: "cross_link g b i v gc = Inr (AList.update ob (arr[nat oi := v]) gc)"
    using arr bl Some p by (simp add: cross_link_def lookup_def get_al_def)
  have "shape (AList.update ob (arr[nat oi := v]) gc) = bar_lengths g"
    using arr(1) sh by (simp add: shape_update)
  moreover have "\<forall>b' i'. cell_of (AList.update ob (arr[nat oi := v]) gc) b' i' =
            (if map_of (cross_map g) (b, i) = Some (b', i') then Some v else cell_of gc b' i')"
    using arr Some p by (auto simp: cell_of_update)
  ultimately show ?thesis using r by blast
qed

section \<open>The handlers, case by case\<close>

lemma on_move_frame [simp]:
  "grid_cells (on_move s k) = grid_cells s"
  "hidden_cells (on_move s k) = hidden_cells s"
  "puzzle_id (on_move s k) = puzzle_id s"
  "state_id (on_move s k) = state_id s"
  "clue_order (on_move s k) = clue_order s"
  "start_time (on_move s k) = start_time s"
  "last_client_seq (on_move s k) = last_client_seq s"
  "scope (active (on_move s k)) = scope (active s)"
  "bar_id (active (on_move s k)) = bar_id (active s)"
  "direction (active (on_move s k)) = direction (active s)"
  by (simp_all add: on_move_def Let_def)

lemma on_move_index:
  "active_cells s = Some arr \<Longrightarrow> arr \<noteq> [] \<Longrightarrow>
   index (active (on_move s k)) = clamp (index (active s) + k) 0 (int (length arr) - 1)"
  by (cases "scope (active s)") (auto simp: on_move_def Let_def active_cells_def get_al_def)

lemma on_move_active_ok: "active_ok s \<Longrightarrow> active_ok (on_move s k)"
  by (cases "scope (active s)")
     (auto simp: active_ok_def active_cells_def on_move_def Let_def get_al_def clamp_def split: option.splits)

lemma is_AZ_length: "is_AZ l \<Longrightarrow> length l = 1"
  by (simp add: is_AZ_def)

lemma on_input_letter_cases:
  assumes ok: "grid_ok g" and sh: "shape (grid_cells s) = bar_lengths g"
  obtains
    (ignored) tag where "on_input_letter s pl g = Inr (s\<lparr>last_action := tag\<rparr>)"
      and "\<not> is_AZ (norm_letter pl) \<or> \<not> active_ok s"
  | (hidden) arr where "is_AZ (norm_letter pl)" and "scope (active s) = Hidden"
      and "map_of (hidden_cells s) (bar_id (active s)) = Some arr"
      and "0 \<le> index (active s)" and "index (active s) < int (length arr)"
      and "on_input_letter s pl g =
             Inr (on_move (s\<lparr>hidden_cells := AList.update (bar_id (active s))
                                (arr[nat (index (active s)) := norm_letter pl]) (hidden_cells s),
                             last_action := ''input:hidden''\<rparr>) 1)"
  | (grid) arr gc' where "is_AZ (norm_letter pl)" and "scope (active s) = Grid"
      and "map_of (grid_cells s) (bar_id (active s)) = Some arr"
      and "0 \<le> index (active s)" and "index (active s) < int (length arr)"
      and "shape gc' = bar_lengths g"
      and "\<forall>b' i'. cell_of gc' b' i' =
             (if (b', i') = (bar_id (active s), index (active s)) \<or>
                 map_of (cross_map g) (bar_id (active s), index (active s)) = Some (b', i')
              then Some (norm_letter pl) else cell_of (grid_cells s) b' i')"
      and "on_input_letter s pl g =
             Inr (on_move (s\<lparr>grid_cells := gc', last_action := ''input:grid''\<rparr>) 1)"
proof (cases "is_AZ (norm_letter pl)")
  case False
  then have "on_input_letter s pl g = Inr (s\<lparr>last_action := ''input:ignored''\<rparr>)"
    by (simp add: on_input_letter_def Let_def)
  then show thesis using False by (intro ignored) auto
next
  case az: True
  note len = is_AZ_length [OF az]
  show thesis
  proof (cases "scope (active s)")
    case Hidden
    show thesis
    proof (cases "map_of (hidden_cells s) (bar_id (active s))")
      case None
      then have "on_input_letter s pl g = Inr (s\<lparr>last_action := ''input:hidden_missing''\<rparr>)"
        using az len Hidden by (simp add: on_input_letter_def Let_def has_key_def)
      moreover have "\<not> active_ok s"
        using None Hidden by (simp add: active_ok_def active_cells_def)
      ultimately show thesis by (intro ignored) auto
    next
      case (Some arr)
      show thesis
      proof (cases "0 \<le> index (active s) \<and> index (active s) < int (length arr)")
        case False
        then have "on_input_letter s pl g = Inr (s\<lparr>last_action := ''input:oob''\<rparr>)"
          using az len Hidden Some by (auto simp: on_input_letter_def Let_def has_key_def get_al_def)
        moreover have "\<not> active_ok s"
          using False Some Hidden by (auto simp: active_ok_def active_cells_def)
        ultimately show thesis by (intro ignored) auto
      next
        case True
        then have "on_input_letter s pl g =
             Inr (on_move (s\<lparr>hidden_cells := AList.update (bar_id (active s))
                                (arr[nat (index (active s)) := norm_letter pl]) (hidden_cells s),
                             last_action := ''input:hidden''\<rparr>) 1)"
          using az len Hidden Some by (auto simp: on_input_letter_def Let_def has_key_def get_al_def)
        then show thesis using az Hidden Some True by (intro hidden) auto
      qed
    qed
  next
    case Grid
    show thesis
    proof (cases "map_of (grid_cells s) (bar_id (active s))")
      case None
      then have "on_input_letter s pl g = Inr (s\<lparr>last_action := ''input:grid_missing''\<rparr>)"
        using az len Grid by (simp add: on_input_letter_def Let_def has_key_def)
      moreover have "\<not> active_ok s"
        using None Grid by (simp add: active_ok_def active_cells_def)
      ultimately show thesis by (intro ignored) auto
    next
      case (Some arr)
      show thesis
      proof (cases "0 \<le> index (active s) \<and> index (active s) < int (length arr)")
        case False
        then have "on_input_letter s pl g = Inr (s\<lparr>last_action := ''input:oob''\<rparr>)"
          using az len Grid Some by (auto simp: on_input_letter_def Let_def has_key_def get_al_def)
        moreover have "\<not> active_ok s"
          using False Some Grid by (auto simp: active_ok_def active_cells_def)
        ultimately show thesis by (intro ignored) auto
      next
        case True
        let ?b = "bar_id (active s)" and ?i = "index (active s)" and ?L = "norm_letter pl"
        let ?ng = "AList.update ?b (arr[nat ?i := ?L]) (grid_cells s)"
        have sh1: "shape ?ng = bar_lengths g"
          using Some sh by (simp add: shape_update)
        have c1: "\<And>b' i'. cell_of ?ng b' i' = (if b' = ?b \<and> i' = ?i then Some ?L else cell_of (grid_cells s) b' i')"
          using Some True by (simp add: cell_of_update)
        from cross_link_ok [OF ok sh1, of ?b ?i ?L] obtain gc' where
          cl: "cross_link g ?b ?i ?L ?ng = Inr gc'" "shape gc' = bar_lengths g"
          "\<forall>b' i'. cell_of gc' b' i' =
              (if map_of (cross_map g) (?b, ?i) = Some (b', i') then Some ?L else cell_of ?ng b' i')"
          by blast
        have r: "on_input_letter s pl g = Inr (on_move (s\<lparr>grid_cells := gc', last_action := ''input:grid''\<rparr>) 1)"
          using az len Grid Some True cl(1)
          by (auto simp: on_input_letter_def Let_def has_key_def get_al_def)
        have "\<forall>b' i'. cell_of gc' b' i' =
             (if (b', i') = (?b, ?i) \<or> map_of (cross_map g) (?b, ?i) = Some (b', i')
              then Some ?L else cell_of (grid_cells s) b' i')"
          using cl(3) c1 by auto
        then show thesis using az Grid Some True cl(2) r by (intro grid [of arr gc']) auto
      qed
    qed
  qed
qed

lemma grid_inv_bookkeeping [simp]:
  "grid_inv g (s\<lparr>last_action := t\<rparr>) = grid_inv g s"
  "grid_inv g (s\<lparr>last_client_seq := c\<rparr>) = grid_inv g s"
  "grid_inv g (s\<lparr>active := a\<rparr>) = grid_inv g s"
  "grid_inv g (s\<lparr>hidden_cells := h\<rparr>) = grid_inv g s"
  "grid_inv g (on_move s k) = grid_inv g s"
  by (simp_all add: grid_inv_def)

lemma on_input_letter_grid_inv:
  assumes ok: "grid_ok g" and inv: "grid_inv g s"
  shows "\<exists>s'. on_input_letter s pl g = Inr s' \<and> grid_inv g s' \<and>
               shape (hidden_cells s') = shape (hidden_cells s)"
proof -
  from inv have sh: "shape (grid_cells s) = bar_lengths g" and sync: "cross_sync g (grid_cells s)"
    by (simp_all add: grid_inv_def)
  from ok sh show ?thesis
  proof (cases rule: on_input_letter_cases [where pl = pl])
    case (ignored tag)
    then show ?thesis using inv by simp
  next
    case (hidden arr)
    then show ?thesis using inv by (simp add: shape_update)
  next
    case (grid arr gc')
    have "cross_sync g gc'"
      using ok sync grid(7) by (rule sync_after_write)
    then show ?thesis using grid by (simp add: grid_inv_def)
  qed
qed

lemma clamp_in_range: "0 < n \<Longrightarrow> 0 \<le> clamp i 0 (n - 1) \<and> clamp i 0 (n - 1) < n"
  by (auto simp: clamp_def)

lemma clamp_id: "0 \<le> i \<Longrightarrow> i < n \<Longrightarrow> clamp i 0 (n - 1) = i"
  by (auto simp: clamp_def)

lemma on_backspace_cases:
  assumes ok: "grid_ok g" and sh: "shape (grid_cells s) = bar_lengths g"
  obtains
    (noop) tag where "on_backspace s g = Inr (s\<lparr>last_action := tag\<rparr>)"
      and "\<not> active_ok s \<or>
           (active_cells s \<noteq> None \<and> the (active_cells s) ! nat (index (active s)) = [] \<and> index (active s) = 0)"
  | (hidden) arr i t where "scope (active s) = Hidden"
      and "map_of (hidden_cells s) (bar_id (active s)) = Some arr" and "arr \<noteq> []"
      and "i = clamp (index (active s)) 0 (int (length arr) - 1)"
      and "(arr ! nat i \<noteq> [] \<and> t = i \<and>
            on_backspace s g =
              Inr (s\<lparr>hidden_cells := AList.update (bar_id (active s)) (arr[nat t := []]) (hidden_cells s),
                     last_action := ''bksp:hidden_clear''\<rparr>)) \<or>
           (arr ! nat i = [] \<and> 0 < i \<and> t = i - 1 \<and>
            on_backspace s g =
              Inr (s\<lparr>hidden_cells := AList.update (bar_id (active s)) (arr[nat t := []]) (hidden_cells s),
                     active := (active s)\<lparr>index := t\<rparr>,
                     last_action := ''bksp:hidden_prev_clear''\<rparr>))"
  | (grid) arr i t gc' where "scope (active s) = Grid"
      and "map_of (grid_cells s) (bar_id (active s)) = Some arr" and "arr \<noteq> []"
      and "i = clamp (index (active s)) 0 (int (length arr) - 1)"
      and "shape gc' = bar_lengths g"
      and "\<forall>b' i'. cell_of gc' b' i' =
             (if (b', i') = (bar_id (active s), t) \<or>
                 map_of (cross_map g) (bar_id (active s), t) = Some (b', i')
              then Some [] else cell_of (grid_cells s) b' i')"
      and "(arr ! nat i \<noteq> [] \<and> t = i \<and>
            on_backspace s g = Inr (s\<lparr>grid_cells := gc', last_action := ''bksp:grid_clear''\<rparr>)) \<or>
           (arr ! nat i = [] \<and> 0 < i \<and> t = i - 1 \<and>
            on_backspace s g =
              Inr (s\<lparr>grid_cells := gc', active := (active s)\<lparr>index := t\<rparr>,
                     last_action := ''bksp:grid_prev_clear''\<rparr>))"
proof (cases "scope (active s)")
  case Hidden
  show thesis
  proof (cases "map_of (hidden_cells s) (bar_id (active s))")
    case None
    then have "on_backspace s g = Inr (s\<lparr>last_action := ''bksp:hidden_missing''\<rparr>)"
      using Hidden by (simp add: on_backspace_def Let_def has_key_def)
    moreover have "\<not> active_ok s"
      using None Hidden by (simp add: active_ok_def active_cells_def)
    ultimately show thesis by (intro noop) auto
  next
    case (Some arr)
    show thesis
    proof (cases "arr = []")
      case True
      then have "on_backspace s g = Inr (s\<lparr>last_action := ''bksp:hidden_empty''\<rparr>)"
        using Hidden Some by (simp add: on_backspace_def Let_def has_key_def get_al_def)
      moreover have "\<not> active_ok s"
        using True Some Hidden by (simp add: active_ok_def active_cells_def)
      ultimately show thesis by (intro noop) auto
    next
      case ne: False
      define i where "i = clamp (index (active s)) 0 (int (length arr) - 1)"
      have rng: "0 \<le> i" "i < int (length arr)"
        using ne clamp_in_range [of "int (length arr)" "index (active s)"] by (auto simp: i_def)
      consider (clear) "arr ! nat i \<noteq> []" | (prev) "arr ! nat i = []" "0 < i"
        | (edge) "arr ! nat i = []" "i = 0"
        using rng by fastforce
      then show thesis
      proof cases
        case clear
        then have "on_backspace s g =
              Inr (s\<lparr>hidden_cells := AList.update (bar_id (active s)) (arr[nat i := []]) (hidden_cells s),
                     last_action := ''bksp:hidden_clear''\<rparr>)"
          using Hidden Some ne by (simp add: on_backspace_def Let_def has_key_def get_al_def i_def)
        then show thesis using Hidden Some ne clear i_def by (intro hidden [of arr i i]) auto
      next
        case prev
        then have "on_backspace s g =
              Inr (s\<lparr>hidden_cells := AList.update (bar_id (active s)) (arr[nat (i - 1) := []]) (hidden_cells s),
                     active := (active s)\<lparr>index := i - 1\<rparr>,
                     last_action := ''bksp:hidden_prev_clear''\<rparr>)"
          using Hidden Some ne by (simp add: on_backspace_def Let_def has_key_def get_al_def i_def)
        then show thesis using Hidden Some ne prev i_def by (intro hidden [of arr i "i - 1"]) auto
      next
        case edge
        then have r: "on_backspace s g = Inr (s\<lparr>last_action := ''bksp:hidden_edge''\<rparr>)"
          using Hidden Some ne by (simp add: on_backspace_def Let_def has_key_def get_al_def i_def)
        have "active_ok s \<Longrightarrow> index (active s) = 0 \<and> the (active_cells s) ! nat (index (active s)) = []"
          using edge Hidden Some clamp_id [of "index (active s)" "int (length arr)"]
          by (auto simp: active_ok_def active_cells_def i_def)
        moreover have "active_cells s \<noteq> None"
          using Hidden Some by (simp add: active_cells_def)
        ultimately show thesis using r by (intro noop) auto
      qed
    qed
  qed
next
  case Grid
  show thesis
  proof (cases "map_of (grid_cells s) (bar_id (active s))")
    case None
    then have "on_backspace s g = Inr (s\<lparr>last_action := ''bksp:grid_missing''\<rparr>)"
      using Grid by (simp add: on_backspace_def Let_def has_key_def)
    moreover have "\<not> active_ok s"
      using None Grid by (simp add: active_ok_def active_cells_def)
    ultimately show thesis by (intro noop) auto
  next
    case (Some arr)
    show thesis
    proof (cases "arr = []")
      case True
      then have "on_backspace s g = Inr (s\<lparr>last_action := ''bksp:grid_empty''\<rparr>)"
        using Grid Some by (simp add: on_backspace_def Let_def has_key_def get_al_def)
      moreover have "\<not> active_ok s"
        using True Some Grid by (simp add: active_ok_def active_cells_def)
      ultimately show thesis by (intro noop) auto
    next
      case ne: False
      define i where "i = clamp (index (active s)) 0 (int (length arr) - 1)"
      have rng: "0 \<le> i" "i < int (length arr)"
        using ne clamp_in_range [of "int (length arr)" "index (active s)"] by (auto simp: i_def)
      consider (clear) "arr ! nat i \<noteq> []" | (prev) "arr ! nat i = []" "0 < i"
        | (edge) "arr ! nat i = []" "i = 0"
        using rng by fastforce
      then show thesis
      proof cases
        case clear
        have "in_bar (bar_lengths g) (bar_id (active s), i)"
          using sh Some rng by (rule cells_in_bar)
        from clear_with_partner_ok [OF ok sh this] obtain gc' where
          c: "clear_with_partner g (bar_id (active s)) i (grid_cells s) = Inr gc'"
             "shape gc' = bar_lengths g"
             "\<forall>b' i'. cell_of gc' b' i' =
                (if (b', i') = (bar_id (active s), i) \<or>
                    map_of (cross_map g) (bar_id (active s), i) = Some (b', i')
                 then Some [] else cell_of (grid_cells s) b' i')"
          by blast
        have "on_backspace s g = Inr (s\<lparr>grid_cells := gc', last_action := ''bksp:grid_clear''\<rparr>)"
          using Grid Some ne clear c(1)
          by (simp add: on_backspace_def Let_def has_key_def get_al_def i_def)
        then show thesis using Grid Some ne clear i_def c(2,3) by (intro grid [of arr i gc' i]) auto
      next
        case prev
        have "in_bar (bar_lengths g) (bar_id (active s), i - 1)"
          using sh Some rng prev by (intro cells_in_bar [of _ _ _ arr]) auto
        from clear_with_partner_ok [OF ok sh this] obtain gc' where
          c: "clear_with_partner g (bar_id (active s)) (i - 1) (grid_cells s) = Inr gc'"
             "shape gc' = bar_lengths g"
             "\<forall>b' i'. cell_of gc' b' i' =
                (if (b', i') = (bar_id (active s), i - 1) \<or>
                    map_of (cross_map g) (bar_id (active s), i - 1) = Some (b', i')
                 then Some [] else cell_of (grid_cells s) b' i')"
          by blast
        have "on_backspace s g =
                Inr (s\<lparr>grid_cells := gc', active := (active s)\<lparr>index := i - 1\<rparr>,
                       last_action := ''bksp:grid_prev_clear''\<rparr>)"
          using Grid Some ne prev c(1)
          by (simp add: on_backspace_def Let_def has_key_def get_al_def i_def)
        then show thesis using Grid Some ne prev i_def c(2,3) by (intro grid [of arr i gc' "i - 1"]) auto
      next
        case edge
        then have r: "on_backspace s g = Inr (s\<lparr>last_action := ''bksp:grid_edge''\<rparr>)"
          using Grid Some ne by (simp add: on_backspace_def Let_def has_key_def get_al_def i_def)
        have "active_ok s \<Longrightarrow> index (active s) = 0 \<and> the (active_cells s) ! nat (index (active s)) = []"
          using edge Grid Some clamp_id [of "index (active s)" "int (length arr)"]
          by (auto simp: active_ok_def active_cells_def i_def)
        moreover have "active_cells s \<noteq> None"
          using Grid Some by (simp add: active_cells_def)
        ultimately show thesis using r by (intro noop) auto
      qed
    qed
  qed
qed

lemma on_backspace_grid_inv:
  assumes ok: "grid_ok g" and inv: "grid_inv g s"
  shows "\<exists>s'. on_backspace s g = Inr s' \<and> grid_inv g s' \<and>
               shape (hidden_cells s') = shape (hidden_cells s)"
proof -
  from inv have sh: "shape (grid_cells s) = bar_lengths g" and sync: "cross_sync g (grid_cells s)"
    by (simp_all add: grid_inv_def)
  from ok sh show ?thesis
  proof (cases rule: on_backspace_cases [where s = s])
    case (noop tag)
    then show ?thesis using inv by simp
  next
    case (hidden arr i t)
    then show ?thesis using inv by (auto simp: shape_update)
  next
    case (grid arr i t gc')
    have "cross_sync g gc'"
      using ok sync grid(6) by (rule sync_after_write)
    then show ?thesis using grid by (auto simp: grid_inv_def)
  qed
qed

lemma accept_client_seq_frame [simp]:
  "grid_cells (accept_client_seq c s) = grid_cells s"
  "hidden_cells (accept_client_seq c s) = hidden_cells s"
  "active (accept_client_seq c s) = active s"
  "puzzle_id (accept_client_seq c s) = puzzle_id s"
  "state_id (accept_client_seq c s) = state_id s"
  "clue_order (accept_client_seq c s) = clue_order s"
  "start_time (accept_client_seq c s) = start_time s"
  "last_action (accept_client_seq c s) = last_action s"
  by (simp_all add: accept_client_seq_def split: option.splits)

lemma accept_client_seq_value:
  "last_client_seq (accept_client_seq c s) =
     (case c of None \<Rightarrow> last_client_seq s | Some n \<Rightarrow> max (last_client_seq s) n)"
  by (simp add: accept_client_seq_def split: option.splits)

lemma accept_client_seq_eq:
  "accept_client_seq c s = s\<lparr>last_client_seq := last_client_seq (accept_client_seq c s)\<rparr>"
  by (simp add: accept_client_seq_def split: option.splits)

lemma reduce_simps:
  "type_ev e = ''INPUT_LETTER'' \<Longrightarrow>
     reduce env s e g =
       (case on_input_letter s (payload e) g of
          Inl x \<Rightarrow> Inl x
        | Inr out \<Rightarrow> Inr (accept_client_seq (client_seq_of (payload e)) out))"
  "type_ev e = ''MOVE_NEXT'' \<Longrightarrow>
     reduce env s e g = Inr (accept_client_seq (client_seq_of (payload e)) (on_move s 1))"
  "type_ev e = ''MOVE_PREV'' \<Longrightarrow>
     reduce env s e g = Inr (accept_client_seq (client_seq_of (payload e)) (on_move s (- 1)))"
  "type_ev e = ''SET_ACTIVE_BAR'' \<Longrightarrow>
     reduce env s e g =
       (case on_set_active s (payload e) of
          Inl x \<Rightarrow> Inl x
        | Inr out \<Rightarrow> Inr (accept_client_seq (client_seq_of (payload e)) out))"
  "type_ev e = ''BACKSPACE'' \<Longrightarrow>
     reduce env s e g =
       (case on_backspace s g of
          Inl x \<Rightarrow> Inl x
        | Inr out \<Rightarrow> Inr (accept_client_seq (client_seq_of (payload e)) out))"
  "type_ev e = ''RESET'' \<Longrightarrow>
     reduce env s e g = Inr (accept_client_seq (client_seq_of (payload e)) (on_reset env s))"
  "type_ev e = ''TICK'' \<Longrightarrow>
     reduce env s e g = Inr (accept_client_seq (client_seq_of (payload e)) s)"
  "type_ev e \<notin> set [''INPUT_LETTER'', ''MOVE_NEXT'', ''MOVE_PREV'', ''SET_ACTIVE_BAR'',
                     ''BACKSPACE'', ''RESET'', ''TICK''] \<Longrightarrow>
     reduce env s e g =
       Inr (accept_client_seq (client_seq_of (payload e)) (s\<lparr>last_action := ''ignored:'' @ type_ev e\<rparr>))"
  by (simp_all add: reduce_def Let_def)

lemma event_type_cases:
  obtains "type_ev e = ''INPUT_LETTER''" | "type_ev e = ''MOVE_NEXT''" | "type_ev e = ''MOVE_PREV''"
  | "type_ev e = ''SET_ACTIVE_BAR''" | "type_ev e = ''BACKSPACE''" | "type_ev e = ''RESET''"
  | "type_ev e = ''TICK''"
  | "type_ev e \<notin> set [''INPUT_LETTER'', ''MOVE_NEXT'', ''MOVE_PREV'', ''SET_ACTIVE_BAR'',
                       ''BACKSPACE'', ''RESET'', ''TICK'']"
  by auto

lemma grid_has_h1:
  assumes "grid_ok g" and "shape gc = bar_lengths g"
  shows "\<exists>arr. map_of gc ''h1'' = Some arr \<and> arr \<noteq> []"
proof -
  from assms(1) have "''h1'' \<in> fst ` set (bar_lengths g)"
    by (simp add: grid_ok_def GRID_ORDER_def flip: set_map)
  then obtain n where n: "map_of (bar_lengths g) ''h1'' = Some n"
    by (meson map_of_eq_None_iff not_Some_eq)
  then have "(''h1'', n) \<in> set (bar_lengths g)" by (rule map_of_SomeD)
  with assms(1) have "0 < n" by (auto simp: grid_ok_def list_all_iff)
  with n assms(2) show ?thesis
    using map_of_shape [of gc "''h1''"] by (cases "map_of gc ''h1''") auto
qed

lemma on_set_active_result:
  assumes "map_of (grid_cells s) ''h1'' = Some arr"
  shows "\<exists>a. on_set_active s pl = Inr (s\<lparr>active := a, last_action := ''set_active''\<rparr>)"
  using assms
  by (auto simp: on_set_active_def Let_def lookup_def has_key_def split: option.splits)

lemma shape_blank: "shape (map (\<lambda>(k, arr). (k, map f arr)) d) = shape d"
  by (induction d) (auto simp: shape_def)

lemma cell_of_blank:
  "cell_of (map (\<lambda>(k, arr). (k, map (\<lambda>_. v) arr)) d) b i = map_option (\<lambda>_. v) (cell_of d b i)"
  by (auto simp: cell_of_def map_of_map nat_less_iff split: option.splits)

lemma on_reset_grid_inv:
  assumes "grid_inv g s"
  shows "grid_inv g (on_reset env s)" and "shape (hidden_cells (on_reset env s)) = shape (hidden_cells s)"
  using assms
  by (auto simp: grid_inv_def on_reset_def shape_blank cross_sync_def list_all_iff cell_of_blank)

lemma reduce_grid_inv:
  assumes ok: "grid_ok g" and inv: "grid_inv g s"
  shows "\<exists>s'. reduce env s e g = Inr s' \<and> grid_inv g s' \<and>
               shape (hidden_cells s') = shape (hidden_cells s)"
proof (cases e rule: event_type_cases)
  case 1
  with on_input_letter_grid_inv [OF ok inv, of "payload e"] show ?thesis
    by (auto simp: reduce_simps grid_inv_def)
next
  case 2
  then show ?thesis using inv by (simp add: reduce_simps grid_inv_def)
next
  case 3
  then show ?thesis using inv by (simp add: reduce_simps grid_inv_def)
next
  case 4
  from inv have "shape (grid_cells s) = bar_lengths g" by (simp add: grid_inv_def)
  from grid_has_h1 [OF ok this] obtain arr where "map_of (grid_cells s) ''h1'' = Some arr" by blast
  from on_set_active_result [OF this, of "payload e"] 4 inv show ?thesis
    by (auto simp: reduce_simps grid_inv_def)
next
  case 5
  with on_backspace_grid_inv [OF ok inv] show ?thesis
    by (auto simp: reduce_simps grid_inv_def)
next
  case 6
  then show ?thesis using on_reset_grid_inv [OF inv, of env]
    by (simp add: reduce_simps grid_inv_def)
next
  case 7
  then show ?thesis using inv by (simp add: reduce_simps grid_inv_def)
next
  case 8
  then show ?thesis using inv by (simp add: reduce_simps grid_inv_def)
qed

lemma reduce_all_grid_inv:
  assumes ok: "grid_ok g"
  shows "grid_inv g s \<Longrightarrow>
         \<exists>s'. reduce_all s steps g = Inr s' \<and> grid_inv g s' \<and>
              shape (hidden_cells s') = shape (hidden_cells s)"
proof (induction steps arbitrary: s)
  case Nil
  then show ?case by simp
next
  case (Cons step steps)
  obtain env e where step: "step = (env, e)" by (cases step)
  from reduce_grid_inv [OF ok Cons.prems, of env e] obtain s1 where
    s1: "reduce env s e g = Inr s1" "grid_inv g s1" "shape (hidden_cells s1) = shape (hidden_cells s)"
    by blast
  from Cons.IH [OF s1(2)] s1 step show ?case by auto
qed

lemma bar_lengths_explicit:
  assumes "grid_ok g"
  obtains n1 n2 n3 n4 n5 n6 where
    "bar_lengths g = [(''h1'', n1), (''h2'', n2), (''h3'', n3), (''v1'', n4), (''v2'', n5), (''v3'', n6)]"
    and "0 < n1" "0 < n2" "0 < n3" "0 < n4" "0 < n5" "0 < n6"
proof -
  from assms have m: "map fst (bar_lengths g) = [''h1'', ''h2'', ''h3'', ''v1'', ''v2'', ''v3'']"
    and pos: "list_all (\<lambda>(b, n). 0 < n) (bar_lengths g)"
    by (simp_all add: grid_ok_def GRID_ORDER_def)
  from m obtain n1 n2 n3 n4 n5 n6 where
    bl: "bar_lengths g = [(''h1'', n1), (''h2'', n2), (''h3'', n3), (''v1'', n4), (''v2'', n5), (''v3'', n6)]"
    by (auto simp: map_eq_Cons_conv)
  with pos that show thesis by simp
qed

lemma init_state_ok:
  assumes ok: "grid_ok g"
  shows "\<exists>s0. init_state env p g = Inr s0 \<and>
               grid_cells s0 = map (\<lambda>(b, n). (b, replicate (nat n) [])) (bar_lengths g) \<and>
               hidden_cells s0 = init_hidden_cells (hidden_answers_of p) \<and>
               active s0 = \<lparr> scope = Grid, bar_id = ''h1'', index = 0, direction = Horizontal \<rparr> \<and>
               state_id s0 = uuid4 env \<and> last_client_seq s0 = 0"
proof -
  from ok obtain n1 n2 n3 n4 n5 n6 where
    bl: "bar_lengths g = [(''h1'', n1), (''h2'', n2), (''h3'', n3), (''v1'', n4), (''v2'', n5), (''v3'', n6)]"
    by (rule bar_lengths_explicit)
  show ?thesis
    by (simp add: init_state_def bl GRID_ORDER_def lookup_def Let_def)
qed

lemma cell_of_replicate:
  "cell_of (map (\<lambda>(b, n). (b, replicate (nat n) v)) bl) b i = (if in_bar bl (b, i) then Some v else None)"
  by (auto simp: cell_of_def in_bar_def map_of_map split: option.splits)

lemma shape_replicate:
  "list_all (\<lambda>(b, n). 0 < n) bl \<Longrightarrow> shape (map (\<lambda>(b, n). (b, replicate (nat n) v)) bl) = bl"
  by (induction bl) (auto simp: shape_def)

lemma init_state_grid_inv:
  assumes ok: "grid_ok g" and "init_state env p g = Inr s0"
  shows "grid_inv g s0"
proof -
  from init_state_ok [OF ok, of env p] assms(2)
  have gc: "grid_cells s0 = map (\<lambda>(b, n). (b, replicate (nat n) [])) (bar_lengths g)" by auto
  have "shape (grid_cells s0) = bar_lengths g"
    using ok by (simp add: gc shape_replicate grid_ok_def)
  moreover have "cross_sync g (grid_cells s0)"
    using ok by (auto simp: cross_sync_def gc cell_of_replicate grid_ok_def list_all_iff)
  ultimately show ?thesis by (simp add: grid_inv_def)
qed

lemma session_grid_inv:
  assumes ok: "grid_ok g"
  shows "\<exists>s. session env p g steps = Inr s \<and> grid_inv g s"
proof -
  from init_state_ok [OF ok, of env p] obtain s0 where s0: "init_state env p g = Inr s0" by blast
  from reduce_all_grid_inv [OF ok init_state_grid_inv [OF ok s0], of steps] s0
  show ?thesis by (auto simp: session_def)
qed

lemma grid_ok_build: "grid_ok build_grid_spec"
  by code_simp

lemma cross_map_build:
  "cross_map build_grid_spec =
     [((''h1'', 1), ''v1'', 1), ((''v1'', 1), ''h1'', 1), ((''h1'', 3), ''v2'', 1),
      ((''v2'', 1), ''h1'', 3), ((''h1'', 5), ''v3'', 1), ((''v3'', 1), ''h1'', 5),
      ((''h2'', 1), ''v1'', 3), ((''v1'', 3), ''h2'', 1), ((''h2'', 3), ''v2'', 3),
      ((''v2'', 3), ''h2'', 3), ((''h2'', 5), ''v3'', 3), ((''v3'', 3), ''h2'', 5),
      ((''h3'', 1), ''v1'', 5), ((''v1'', 5), ''h3'', 1), ((''h3'', 3), ''v2'', 5),
      ((''v2'', 5), ''h3'', 3), ((''h3'', 5), ''v3'', 5), ((''v3'', 5), ''h3'', 5)]"
  by code_simp

lemma bar_lengths_build:
  "bar_lengths build_grid_spec =
     [(''h1'', 7), (''h2'', 7), (''h3'', 7), (''v1'', 7), (''v2'', 7), (''v3'', 7)]"
  by code_simp

lemma on_set_active_seq: "on_set_active s pl = Inr s' \<Longrightarrow> last_client_seq s' = last_client_seq s"
  by (auto simp: on_set_active_def Let_def split: sum.splits if_splits prod.splits)

lemma on_input_letter_seq: "on_input_letter s pl g = Inr s' \<Longrightarrow> last_client_seq s' = last_client_seq s"
  by (auto simp: on_input_letter_def Let_def split: sum.splits if_splits)

lemma on_backspace_seq: "on_backspace s g = Inr s' \<Longrightarrow> last_client_seq s' = last_client_seq s"
  by (auto simp: on_backspace_def Let_def split: sum.splits if_splits)

lemma norm_letter_Z: "pl ''letter'' = Some (PStr ''Z'') \<Longrightarrow> norm_letter pl = ''Z''"
  by (simp add: norm_letter_def get_def py_strip_def py_upper_def upper_char_def py_isspace_def)

lemma is_AZ_Z: "is_AZ ''Z''"
  by (simp add: is_AZ_def)

lemma active_ok_shape:
  "active_ok s =
     (case map_of (if scope (active s) = Grid then shape (grid_cells s) else shape (hidden_cells s))
                  (bar_id (active s)) of
        None \<Rightarrow> False
      | Some n \<Rightarrow> 0 \<le> index (active s) \<and> index (active s) < n)"
  by (cases "scope (active s)")
     (auto simp: active_ok_def active_cells_def map_of_shape split: option.splits)

lemma active_ok_cong:
  "shape (grid_cells s') = shape (grid_cells s) \<Longrightarrow> shape (hidden_cells s') = shape (hidden_cells s) \<Longrightarrow>
   active s' = active s \<Longrightarrow> active_ok s' = active_ok s"
  by (simp add: active_ok_shape cong: option.case_cong)

lemma active_ok_bookkeeping [simp]:
  "active_ok (s\<lparr>last_action := t\<rparr>) = active_ok s"
  "active_ok (s\<lparr>last_client_seq := c\<rparr>) = active_ok s"
  "active_ok (accept_client_seq n s) = active_ok s"
  by (rule active_ok_cong; simp)+

lemma hidden_ok_cong: "shape h' = shape h \<Longrightarrow> hidden_ok h' = hidden_ok h"
proof -
  assume e: "shape h' = shape h"
  have "(h' = []) = (shape h' = [])" "(h = []) = (shape h = [])" by (simp_all add: shape_def)
  with e show ?thesis by (simp add: hidden_ok_def)
qed

lemma hidden_ok_lookup: "hidden_ok hc \<Longrightarrow> map_of hc k = Some arr \<Longrightarrow> arr \<noteq> []"
proof -
  assume h: "hidden_ok hc" and m: "map_of hc k = Some arr"
  from m have "(k, arr) \<in> set hc" by (rule map_of_SomeD)
  then have "(k, int (length arr)) \<in> set (shape hc)" by (force simp: shape_def)
  with h show ?thesis by (auto simp: hidden_ok_def list_all_iff)
qed

lemma grid_lookup_nonempty:
  assumes "grid_ok g" and "shape gc = bar_lengths g" and "map_of gc b = Some arr"
  shows "arr \<noteq> []"
proof -
  from assms(3) have "(b, arr) \<in> set gc" by (rule map_of_SomeD)
  then have "(b, int (length arr)) \<in> set (shape gc)" by (force simp: shape_def)
  with assms(1,2) show ?thesis by (auto simp: grid_ok_def list_all_iff)
qed

lemma grid_keys_distinct:
  assumes "grid_ok g" and "shape gc = bar_lengths g"
  shows "distinct (map fst gc)"
proof -
  have "map fst gc = map fst (shape gc)" by (simp add: shape_def case_prod_beta)
  with assms show ?thesis by (simp add: grid_ok_def GRID_ORDER_def)
qed

lemma letters_ok_iff:
  assumes "distinct (map fst d)"
  shows "letters_ok d = (\<forall>b i c. cell_of d b i = Some c \<longrightarrow> c = [] \<or> is_AZ c)"
proof
  assume l: "letters_ok d"
  show "\<forall>b i c. cell_of d b i = Some c \<longrightarrow> c = [] \<or> is_AZ c"
  proof (intro allI impI)
    fix b i c assume c: "cell_of d b i = Some c"
    then obtain arr where arr: "map_of d b = Some arr" "0 \<le> i" "i < int (length arr)" "c = arr ! nat i"
      by (auto simp: cell_of_def split: option.splits if_splits)
    from arr(1) have "(b, arr) \<in> set d" by (rule map_of_SomeD)
    moreover from arr have "c \<in> set arr" by (auto simp: nat_less_iff)
    ultimately show "c = [] \<or> is_AZ c" using l by (auto simp: letters_ok_def list_all_iff)
  qed
next
  assume r: "\<forall>b i c. cell_of d b i = Some c \<longrightarrow> c = [] \<or> is_AZ c"
  show "letters_ok d"
    unfolding letters_ok_def list_all_iff
  proof (clarify)
    fix k arr c assume mem: "(k, arr) \<in> set d" and c: "c \<in> set arr" and ne: "\<not> is_AZ c"
    from assms mem have m: "map_of d k = Some arr" by (rule map_of_is_SomeI)
    from c obtain j where j: "j < length arr" "arr ! j = c" by (auto simp: in_set_conv_nth)
    then have "cell_of d k (int j) = Some c" using m by (simp add: cell_of_def)
    with r ne show "c = []" by blast
  qed
qed

lemma letters_ok_update:
  "letters_ok d \<Longrightarrow> list_all (\<lambda>ch. ch = [] \<or> is_AZ ch) arr' \<Longrightarrow> letters_ok (AList.update k arr' d)"
  by (induction d) (auto simp: letters_ok_def)

lemma letters_ok_lookup:
  "letters_ok d \<Longrightarrow> map_of d k = Some arr \<Longrightarrow> list_all (\<lambda>ch. ch = [] \<or> is_AZ ch) arr"
  by (auto simp: letters_ok_def list_all_iff dest!: map_of_SomeD)

lemma list_all_list_update: "list_all P arr \<Longrightarrow> P v \<Longrightarrow> list_all P (arr[i := v])"
  using set_update_subset_insert [of arr i v] by (auto simp: list_all_iff)

lemma letters_ok_write:
  "letters_ok d \<Longrightarrow> map_of d k = Some arr \<Longrightarrow> v = [] \<or> is_AZ v \<Longrightarrow>
   letters_ok (AList.update k (arr[i := v]) d)"
  by (intro letters_ok_update list_all_list_update) (auto dest: letters_ok_lookup)

lemma letters_ok_cells:
  assumes ok: "grid_ok g" and sh: "shape gc = bar_lengths g" and sh': "shape gc' = bar_lengths g"
    and l: "letters_ok gc" and v: "v = [] \<or> is_AZ v"
    and eq: "\<forall>b' i'. cell_of gc' b' i' = (if P b' i' then Some v else cell_of gc b' i')"
  shows "letters_ok gc'"
proof -
  have d: "distinct (map fst gc)" "distinct (map fst gc')"
    using ok sh sh' by (auto intro: grid_keys_distinct)
  from l have "\<forall>b i c. cell_of gc b i = Some c \<longrightarrow> c = [] \<or> is_AZ c"
    by (simp add: letters_ok_iff [OF d(1)])
  with eq v have "\<forall>b i c. cell_of gc' b i = Some c \<longrightarrow> c = [] \<or> is_AZ c"
    by (auto split: if_splits)
  then show ?thesis by (simp add: letters_ok_iff [OF d(2)])
qed

lemma letters_ok_blank: "letters_ok (map (\<lambda>(k, arr). (k, map (\<lambda>_. []) arr)) d)"
  by (induction d) (auto simp: letters_ok_def list_all_iff)

lemma state_ok_bookkeeping [simp]:
  "state_ok g (s\<lparr>last_action := t\<rparr>) = state_ok g s"
  "state_ok g (s\<lparr>last_client_seq := c\<rparr>) = state_ok g s"
  "state_ok g (accept_client_seq n s) = state_ok g s"
  by (simp_all add: state_ok_def grid_inv_def direction_ok_def)

lemma direction_ok_index [simp]:
  "direction_ok (s\<lparr>active := (active s)\<lparr>index := i\<rparr>\<rparr>) = direction_ok s"
  "direction_ok (s\<lparr>last_action := t\<rparr>) = direction_ok s"
  "direction_ok (s\<lparr>grid_cells := gc\<rparr>) = direction_ok s"
  "direction_ok (s\<lparr>hidden_cells := hc\<rparr>) = direction_ok s"
  "direction_ok (on_move s k) = direction_ok s"
  by (simp_all add: direction_ok_def)

lemma on_move_state_ok: "state_ok g s \<Longrightarrow> state_ok g (on_move s k)"
  by (simp add: state_ok_def on_move_active_ok)

lemma on_input_letter_state_ok:
  assumes ok: "grid_ok g" and inv: "state_ok g s" and r: "on_input_letter s pl g = Inr s'"
  shows "state_ok g s'"
proof -
  from inv have gi: "grid_inv g s" and sh: "shape (grid_cells s) = bar_lengths g"
    and hk: "hidden_ok (hidden_cells s)" and ao: "active_ok s" and dk: "direction_ok s"
    and lg: "letters_ok (grid_cells s)" and lh: "letters_ok (hidden_cells s)"
    by (simp_all add: state_ok_def grid_inv_def)
  from on_input_letter_grid_inv [OF ok gi, of pl] r
  have gi': "grid_inv g s'" and hs: "shape (hidden_cells s') = shape (hidden_cells s)" by auto
  from hk have hk': "hidden_ok (hidden_cells s')" using hidden_ok_cong [OF hs] by simp
  from ok sh have "active_ok s' \<and> direction_ok s' \<and> letters_ok (grid_cells s') \<and> letters_ok (hidden_cells s')"
  proof (cases rule: on_input_letter_cases [where pl = pl and s = s])
    case (ignored tag)
    from r ignored(1) have s': "s' = s\<lparr>last_action := tag\<rparr>" by simp
    show ?thesis unfolding s' using ao dk lg lh by simp
  next
    case (hidden arr)
    let ?s1 = "s\<lparr>hidden_cells := AList.update (bar_id (active s))
                 (arr[nat (index (active s)) := norm_letter pl]) (hidden_cells s),
               last_action := ''input:hidden''\<rparr>"
    from r hidden(6) have s': "s' = on_move ?s1 1" by simp
    have "active_ok ?s1 = active_ok s"
      using hidden(3) by (intro active_ok_cong) (simp_all add: shape_update)
    with ao have a: "active_ok (on_move ?s1 1)" by (simp add: on_move_active_ok)
    have l: "letters_ok (hidden_cells ?s1)"
      using lh hidden(1,3) by (simp add: letters_ok_write)
    show ?thesis unfolding s' using a l dk lg by simp
  next
    case (grid arr gc')
    let ?s1 = "s\<lparr>grid_cells := gc', last_action := ''input:grid''\<rparr>"
    from r grid(8) have s': "s' = on_move ?s1 1" by simp
    have "active_ok ?s1 = active_ok s"
      using grid(6) sh by (intro active_ok_cong) simp_all
    with ao have a: "active_ok (on_move ?s1 1)" by (simp add: on_move_active_ok)
    have v: "norm_letter pl = [] \<or> is_AZ (norm_letter pl)" using grid(1) by simp
    have l: "letters_ok gc'"
      using ok sh grid(6) lg v grid(7) by (rule letters_ok_cells)
    show ?thesis unfolding s' using a l dk lh by simp
  qed
  with gi' hk' show ?thesis by (simp add: state_ok_def)
qed

lemma on_backspace_state_ok:
  assumes ok: "grid_ok g" and inv: "state_ok g s" and r: "on_backspace s g = Inr s'"
  shows "state_ok g s'"
proof -
  from inv have gi: "grid_inv g s" and sh: "shape (grid_cells s) = bar_lengths g"
    and hk: "hidden_ok (hidden_cells s)" and ao: "active_ok s" and dk: "direction_ok s"
    and lg: "letters_ok (grid_cells s)" and lh: "letters_ok (hidden_cells s)"
    by (simp_all add: state_ok_def grid_inv_def)
  from on_backspace_grid_inv [OF ok gi] r
  have gi': "grid_inv g s'" and hs: "shape (hidden_cells s') = shape (hidden_cells s)" by auto
  from hk have hk': "hidden_ok (hidden_cells s')" using hidden_ok_cong [OF hs] by simp
  have e: "([]::string) = [] \<or> is_AZ []" by simp
  from ok sh have "active_ok s' \<and> direction_ok s' \<and> letters_ok (grid_cells s') \<and> letters_ok (hidden_cells s')"
  proof (cases rule: on_backspace_cases [where s = s])
    case (noop tag)
    from r noop(1) have s': "s' = s\<lparr>last_action := tag\<rparr>" by simp
    show ?thesis unfolding s' using ao dk lg lh by simp
  next
    case (hidden arr i t)
    let ?hc = "AList.update (bar_id (active s)) (arr[nat t := []]) (hidden_cells s)"
    have rng: "0 \<le> i" "i < int (length arr)"
      using hidden(3,4) clamp_in_range [of "int (length arr)" "index (active s)"] by auto
    have lw: "letters_ok ?hc"
      using lh hidden(2) by (simp add: letters_ok_write)
    have shc: "shape ?hc = shape (hidden_cells s)"
      using hidden(2) by (simp add: shape_update)
    from hidden(5) show ?thesis
    proof
      assume a: "arr ! nat i \<noteq> [] \<and> t = i \<and>
            on_backspace s g =
              Inr (s\<lparr>hidden_cells := ?hc, last_action := ''bksp:hidden_clear''\<rparr>)"
      with r have s': "s' = s\<lparr>hidden_cells := ?hc, last_action := ''bksp:hidden_clear''\<rparr>" by simp
      have "active_ok s' = active_ok s"
        unfolding s' using shc by (intro active_ok_cong) simp_all
      with ao have "active_ok s'" by simp
      then show ?thesis using dk lg lw by (simp add: s' direction_ok_def)
    next
      assume a: "arr ! nat i = [] \<and> 0 < i \<and> t = i - 1 \<and>
            on_backspace s g =
              Inr (s\<lparr>hidden_cells := ?hc, active := (active s)\<lparr>index := t\<rparr>,
                     last_action := ''bksp:hidden_prev_clear''\<rparr>)"
      with r have s': "s' = s\<lparr>hidden_cells := ?hc, active := (active s)\<lparr>index := t\<rparr>,
                     last_action := ''bksp:hidden_prev_clear''\<rparr>" by simp
      have "map_of (shape ?hc) (bar_id (active s)) = Some (int (length arr))"
        using hidden(2) by (simp add: shc map_of_shape)
      then have "active_ok s'"
        using a rng hidden(1) by (simp add: active_ok_shape s')
      then show ?thesis using dk lg lw by (simp add: s' direction_ok_def)
    qed
  next
    case (grid arr i t gc')
    have rng: "0 \<le> i" "i < int (length arr)"
      using grid(3,4) clamp_in_range [of "int (length arr)" "index (active s)"] by auto
    have lw: "letters_ok gc'"
      using ok sh grid(5) lg e grid(6) by (rule letters_ok_cells)
    from grid(2) sh have bl: "map_of (shape gc') (bar_id (active s)) = Some (int (length arr))"
      using map_of_shape [of "grid_cells s" "bar_id (active s)"] by (simp add: grid(5))
    from grid(7) show ?thesis
    proof
      assume a: "arr ! nat i \<noteq> [] \<and> t = i \<and>
            on_backspace s g = Inr (s\<lparr>grid_cells := gc', last_action := ''bksp:grid_clear''\<rparr>)"
      with r have s': "s' = s\<lparr>grid_cells := gc', last_action := ''bksp:grid_clear''\<rparr>" by simp
      have "active_ok s' = active_ok s"
        unfolding s' using grid(5) sh by (intro active_ok_cong) simp_all
      with ao have "active_ok s'" by simp
      then show ?thesis using dk lh lw by (simp add: s' direction_ok_def)
    next
      assume a: "arr ! nat i = [] \<and> 0 < i \<and> t = i - 1 \<and>
            on_backspace s g =
              Inr (s\<lparr>grid_cells := gc', active := (active s)\<lparr>index := t\<rparr>,
                     last_action := ''bksp:grid_prev_clear''\<rparr>)"
      with r have s': "s' = s\<lparr>grid_cells := gc', active := (active s)\<lparr>index := t\<rparr>,
                     last_action := ''bksp:grid_prev_clear''\<rparr>" by simp
      have "active_ok s'"
        using a rng grid(1) bl by (simp add: active_ok_shape s')
      then show ?thesis using dk lh lw by (simp add: s' direction_ok_def)
    qed
  qed
  with gi' hk' show ?thesis by (simp add: state_ok_def)
qed

lemma first_empty_from_bounds:
  "first_empty_from n cells = 0 \<or>
   (int n \<le> first_empty_from n cells \<and> first_empty_from n cells < int n + int (length cells))"
  by (induction cells arbitrary: n) (auto, force+)

lemma first_empty_index_bounds:
  "cells \<noteq> [] \<Longrightarrow> 0 \<le> first_empty_index cells \<and> first_empty_index cells < int (length cells)"
  using first_empty_from_bounds [of 0 cells] by (auto simp: first_empty_index_def)

lemma chosen_index_bounds:
  "cells \<noteq> [] \<Longrightarrow> 0 \<le> chosen_index r cells \<and> chosen_index r cells < int (length cells)"
  using first_empty_index_bounds [of cells]
  by (auto simp: chosen_index_def clamp_def)

lemma bar_direction_eq:
  "bar_direction b = (if b \<in> set [''v1'', ''v2'', ''v3''] then Vertical else Horizontal)"
  by (auto simp: bar_direction_def)

lemma on_set_active_grid:
  assumes "py_str (get pl ''scope'' (PStr ''grid'')) \<noteq> ''hidden''"
    and "b = (if has_key (grid_cells s) (py_str (get pl ''bar_id'' (PStr ''h1'')))
              then py_str (get pl ''bar_id'' (PStr ''h1'')) else ''h1'')"
    and "map_of (grid_cells s) b = Some cells"
  shows "on_set_active s pl =
           Inr (s\<lparr>active := \<lparr> scope = Grid, bar_id = b,
                               index = chosen_index (get pl ''index'' PNone) cells,
                               direction = bar_direction b \<rparr>,
                  last_action := ''set_active''\<rparr>)"
  using assms by (auto simp: on_set_active_def Let_def lookup_def)

lemma on_set_active_hidden:
  assumes "py_str (get pl ''scope'' (PStr ''grid'')) = ''hidden''"
    and "b = (if has_key (hidden_cells s) (py_str (get pl ''bar_id'' (PStr ''h1'')))
              then py_str (get pl ''bar_id'' (PStr ''h1''))
              else (case hidden_cells s of [] \<Rightarrow> ''hidden1'' | (k, _) # _ \<Rightarrow> k))"
    and "map_of (hidden_cells s) b = Some cells"
  shows "on_set_active s pl =
           Inr (s\<lparr>active := \<lparr> scope = Hidden, bar_id = b,
                               index = chosen_index (get pl ''index'' PNone) cells,
                               direction = Horizontal \<rparr>,
                  last_action := ''set_active''\<rparr>)"
  using assms by (auto simp: on_set_active_def Let_def get_al_def)

lemma grid_fallback_exists:
  assumes ok: "grid_ok g" and sh: "shape (grid_cells s) = bar_lengths g"
  shows "\<exists>cells. map_of (grid_cells s) (if has_key (grid_cells s) bid then bid else ''h1'') = Some cells \<and>
                  cells \<noteq> []"
proof -
  let ?b = "if has_key (grid_cells s) bid then bid else ''h1''"
  have "\<exists>cells. map_of (grid_cells s) ?b = Some cells"
    using grid_has_h1 [OF ok sh] by (auto simp: has_key_def)
  then obtain cells where c: "map_of (grid_cells s) ?b = Some cells" by blast
  with grid_lookup_nonempty [OF ok sh c] show ?thesis by blast
qed

lemma hidden_fallback_exists:
  assumes hk: "hidden_ok (hidden_cells s)"
  shows "\<exists>cells. map_of (hidden_cells s)
                    (if has_key (hidden_cells s) bid then bid
                     else (case hidden_cells s of [] \<Rightarrow> ''hidden1'' | (k, _) # _ \<Rightarrow> k)) = Some cells \<and>
                  cells \<noteq> []"
proof -
  let ?b = "if has_key (hidden_cells s) bid then bid
            else (case hidden_cells s of [] \<Rightarrow> ''hidden1'' | (k, _) # _ \<Rightarrow> k)"
  from hk obtain k v rest where hc: "hidden_cells s = (k, v) # rest"
    by (cases "hidden_cells s") (auto simp: hidden_ok_def)
  have "\<exists>cells. map_of (hidden_cells s) ?b = Some cells"
    by (auto simp: has_key_def hc)
  then obtain cells where c: "map_of (hidden_cells s) ?b = Some cells" by blast
  with hidden_ok_lookup [OF hk c] show ?thesis by blast
qed

lemma on_set_active_state_ok:
  assumes ok: "grid_ok g" and inv: "state_ok g s" and r: "on_set_active s pl = Inr s'"
  shows "state_ok g s'"
proof -
  from inv have gi: "grid_inv g s" and sh: "shape (grid_cells s) = bar_lengths g"
    and hk: "hidden_ok (hidden_cells s)"
    and lg: "letters_ok (grid_cells s)" and lh: "letters_ok (hidden_cells s)"
    by (simp_all add: state_ok_def grid_inv_def)
  let ?bid = "py_str (get pl ''bar_id'' (PStr ''h1''))"
  show ?thesis
  proof (cases "py_str (get pl ''scope'' (PStr ''grid'')) = ''hidden''")
    case False
    let ?b = "if has_key (grid_cells s) ?bid then ?bid else ''h1''"
    from grid_fallback_exists [OF ok sh, of ?bid] obtain cells where
      c: "map_of (grid_cells s) ?b = Some cells" "cells \<noteq> []" by blast
    from on_set_active_grid [OF False refl c(1)] r
    have s': "s' = s\<lparr>active := \<lparr> scope = Grid, bar_id = ?b,
                               index = chosen_index (get pl ''index'' PNone) cells,
                               direction = bar_direction ?b \<rparr>,
                  last_action := ''set_active''\<rparr>" by simp
    have "active_ok s'"
      using c chosen_index_bounds [OF c(2), of "get pl ''index'' PNone"]
      by (simp add: s' active_ok_def active_cells_def)
    moreover have "direction_ok s'"
      by (simp add: s' direction_ok_def bar_direction_eq)
    ultimately show ?thesis using gi hk lg lh by (simp add: state_ok_def s' grid_inv_def)
  next
    case True
    let ?b = "if has_key (hidden_cells s) ?bid then ?bid
              else (case hidden_cells s of [] \<Rightarrow> ''hidden1'' | (k, _) # _ \<Rightarrow> k)"
    from hidden_fallback_exists [OF hk, of ?bid] obtain cells where
      c: "map_of (hidden_cells s) ?b = Some cells" "cells \<noteq> []" by blast
    from on_set_active_hidden [OF True refl c(1)] r
    have s': "s' = s\<lparr>active := \<lparr> scope = Hidden, bar_id = ?b,
                               index = chosen_index (get pl ''index'' PNone) cells,
                               direction = Horizontal \<rparr>,
                  last_action := ''set_active''\<rparr>" by simp
    have "active_ok s'"
      using c chosen_index_bounds [OF c(2), of "get pl ''index'' PNone"]
      by (simp add: s' active_ok_def active_cells_def)
    moreover have "direction_ok s'"
      by (simp add: s' direction_ok_def)
    ultimately show ?thesis using gi hk lg lh by (simp add: state_ok_def s' grid_inv_def)
  qed
qed

lemma on_reset_state_ok:
  assumes ok: "grid_ok g" and inv: "state_ok g s"
  shows "state_ok g (on_reset env s)"
proof -
  from inv have gi: "grid_inv g s" and hk: "hidden_ok (hidden_cells s)"
    by (simp_all add: state_ok_def)
  note r = on_reset_grid_inv [OF gi, of env]
  from r(1) have sh: "shape (grid_cells (on_reset env s)) = bar_lengths g" by (simp add: grid_inv_def)
  from grid_has_h1 [OF ok sh] have "active_ok (on_reset env s)"
    by (auto simp: active_ok_def active_cells_def on_reset_def)
  moreover have "hidden_ok (hidden_cells (on_reset env s))"
    using hk hidden_ok_cong [OF r(2)] by simp
  moreover have "direction_ok (on_reset env s)"
    by (simp add: direction_ok_def on_reset_def)
  moreover have "letters_ok (grid_cells (on_reset env s))" "letters_ok (hidden_cells (on_reset env s))"
    by (simp_all add: on_reset_def letters_ok_blank)
  ultimately show ?thesis using r(1) by (simp add: state_ok_def)
qed

lemma reduce_state_ok:
  assumes ok: "grid_ok g" and inv: "state_ok g s" and r: "reduce env s e g = Inr s'"
  shows "state_ok g s'"
proof (cases e rule: event_type_cases)
  case 1
  with r obtain out where "on_input_letter s (payload e) g = Inr out"
    "s' = accept_client_seq (client_seq_of (payload e)) out"
    by (auto simp: reduce_simps split: sum.splits)
  with on_input_letter_state_ok [OF ok inv] show ?thesis by simp
next
  case 2
  with r inv show ?thesis by (auto simp: reduce_simps on_move_state_ok)
next
  case 3
  with r inv show ?thesis by (auto simp: reduce_simps on_move_state_ok)
next
  case 4
  with r obtain out where "on_set_active s (payload e) = Inr out"
    "s' = accept_client_seq (client_seq_of (payload e)) out"
    by (auto simp: reduce_simps split: sum.splits)
  with on_set_active_state_ok [OF ok inv] show ?thesis by simp
next
  case 5
  with r obtain out where "on_backspace s g = Inr out"
    "s' = accept_client_seq (client_seq_of (payload e)) out"
    by (auto simp: reduce_simps split: sum.splits)
  with on_backspace_state_ok [OF ok inv] show ?thesis by simp
next
  case 6
  with r on_reset_state_ok [OF ok inv, of env] show ?thesis by (auto simp: reduce_simps)
next
  case 7
  with r inv show ?thesis by (auto simp: reduce_simps)
next
  case 8
  with r inv show ?thesis by (auto simp: reduce_simps)
qed

lemma reduce_all_state_ok:
  assumes ok: "grid_ok g"
  shows "state_ok g s \<Longrightarrow> reduce_all s steps g = Inr s' \<Longrightarrow> state_ok g s'"
proof (induction steps arbitrary: s)
  case Nil
  then show ?case by simp
next
  case (Cons step steps)
  obtain env e where step: "step = (env, e)" by (cases step)
  from Cons.prems(2) step obtain s1 where s1: "reduce env s e g = Inr s1" "reduce_all s1 steps g = Inr s'"
    by (auto split: sum.splits)
  from reduce_state_ok [OF ok Cons.prems(1) s1(1)] have "state_ok g s1" .
  from Cons.IH [OF this s1(2)] show ?case .
qed

lemma letters_ok_replicate: "letters_ok (map (\<lambda>(b, n). (b, replicate (nat n) [])) bl)"
  by (induction bl) (auto simp: letters_ok_def list_all_iff)

lemma shape_update_pos:
  "list_all (\<lambda>(k, n). 0 < n) (shape d) \<Longrightarrow> arr \<noteq> [] \<Longrightarrow>
   list_all (\<lambda>(k, n). 0 < n) (shape (AList.update k arr d))"
  by (induction d) (auto simp: shape_def)

lemma init_hidden_fold_letters:
  "letters_ok acc \<Longrightarrow>
   letters_ok (fold (\<lambda>(i, word) hc. AList.update (''hidden'' @ show_nat i)
                                       (replicate (length (py_str word)) []) hc) xs acc)"
proof (induction xs arbitrary: acc)
  case Nil
  then show ?case by simp
next
  case (Cons x xs)
  obtain i w where x: "x = (i, w)" by (cases x)
  have "letters_ok (AList.update (''hidden'' @ show_nat i) (replicate (length (py_str w)) []) acc)"
    using Cons.prems by (intro letters_ok_update) (auto simp: list_all_iff)
  from Cons.IH [OF this] x show ?case by simp
qed

lemma init_hidden_fold_pos:
  "list_all (\<lambda>(k, n). 0 < n) (shape acc) \<Longrightarrow> \<forall>p \<in> set xs. py_str (snd p) \<noteq> [] \<Longrightarrow>
   list_all (\<lambda>(k, n). 0 < n)
     (shape (fold (\<lambda>(i, word) hc. AList.update (''hidden'' @ show_nat i)
                                     (replicate (length (py_str word)) []) hc) xs acc))"
proof (induction xs arbitrary: acc)
  case Nil
  then show ?case by simp
next
  case (Cons x xs)
  obtain i w where x: "x = (i, w)" by (cases x)
  have "list_all (\<lambda>(k, n). 0 < n)
          (shape (AList.update (''hidden'' @ show_nat i) (replicate (length (py_str w)) []) acc))"
    using Cons.prems x by (intro shape_update_pos) auto
  from Cons.IH [OF this] Cons.prems(2) x show ?case by simp
qed

lemma init_hidden_fold_nonempty:
  "acc \<noteq> [] \<Longrightarrow> fold (\<lambda>(i, word). AList.update (f i) (h word)) xs acc \<noteq> []"
  by (induction xs arbitrary: acc) (auto simp: case_prod_beta)

lemma init_hidden_cells_letters: "letters_ok (init_hidden_cells ws)"
  unfolding init_hidden_cells_def
  by (rule init_hidden_fold_letters) (simp add: letters_ok_def)

lemma init_hidden_cells_ok:
  assumes "ws \<noteq> []" and "\<forall>w \<in> set ws. py_str w \<noteq> []"
  shows "hidden_ok (init_hidden_cells ws)"
proof -
  have "\<forall>p \<in> set (List.enumerate 1 ws). py_str (snd p) \<noteq> []"
  proof
    fix p assume "p \<in> set (List.enumerate 1 ws)"
    then have "snd p \<in> snd ` set (List.enumerate 1 ws)" by (rule imageI)
    then have "snd p \<in> set ws" by (simp flip: set_map)
    with assms(2) show "py_str (snd p) \<noteq> []" by blast
  qed
  then have pos: "list_all (\<lambda>(k, n). 0 < n) (shape (init_hidden_cells ws))"
    unfolding init_hidden_cells_def by (intro init_hidden_fold_pos) (simp_all add: shape_def)
  from assms(1) obtain w ws' where ws: "ws = w # ws'" by (cases ws) auto
  have "init_hidden_cells ws \<noteq> []"
    unfolding init_hidden_cells_def ws by (simp add: init_hidden_fold_nonempty)
  with pos show ?thesis by (simp add: hidden_ok_def)
qed

lemma valid_puzzle_hidden:
  assumes "valid_puzzle g p"
  shows "hidden_answers_of p \<noteq> [] \<and> (\<forall>w \<in> set (hidden_answers_of p). py_str w \<noteq> [])"
proof -
  from assms obtain hidden where h0: "answers p ''hidden'' = Some (Words hidden)"
    and len: "length hidden = 1 \<or> length hidden = 2"
    and l: "list_all (\<lambda>hw. case hw of PStr w \<Rightarrow> w \<noteq> [] \<and> validate_letters_only w | _ \<Rightarrow> False) hidden"
    by (auto simp: valid_puzzle_def split: option.splits answer.splits)
  from len have "hidden \<noteq> []" by auto
  note h = h0 this
  from h have e: "hidden_answers_of p = hidden" by (simp add: hidden_answers_of_def)
  have "py_str w \<noteq> []" if "w \<in> set hidden" for w
    using l that by (cases w) (auto simp: list_all_iff)
  with h(2) e show ?thesis by simp
qed

lemma init_state_state_ok:
  assumes ok: "grid_ok g" and vp: "valid_puzzle g p" and r: "init_state env p g = Inr s0"
  shows "state_ok g s0"
proof -
  from init_state_ok [OF ok, of env p] r
  have gc: "grid_cells s0 = map (\<lambda>(b, n). (b, replicate (nat n) [])) (bar_lengths g)"
    and hc: "hidden_cells s0 = init_hidden_cells (hidden_answers_of p)"
    and ac: "active s0 = \<lparr> scope = Grid, bar_id = ''h1'', index = 0, direction = Horizontal \<rparr>"
    by auto
  from init_state_grid_inv [OF ok r] have gi: "grid_inv g s0" .
  then have sh: "shape (grid_cells s0) = bar_lengths g" by (simp add: grid_inv_def)
  from grid_has_h1 [OF ok sh] have "active_ok s0"
    by (auto simp: active_ok_def active_cells_def ac)
  moreover have "direction_ok s0" by (simp add: direction_ok_def ac)
  moreover have "hidden_ok (hidden_cells s0)"
    using valid_puzzle_hidden [OF vp] by (simp add: hc init_hidden_cells_ok)
  moreover have "letters_ok (grid_cells s0)" by (simp add: gc letters_ok_replicate)
  moreover have "letters_ok (hidden_cells s0)" by (simp add: hc init_hidden_cells_letters)
  ultimately show ?thesis using gi by (simp add: state_ok_def)
qed

lemma session_state_ok:
  assumes ok: "grid_ok g" and vp: "valid_puzzle g p" and r: "session env p g steps = Inr s"
  shows "state_ok g s \<and> shape (hidden_cells s) = shape (init_hidden_cells (hidden_answers_of p))"
proof -
  from init_state_ok [OF ok, of env p] obtain s0 where s0: "init_state env p g = Inr s0"
    and hc: "hidden_cells s0 = init_hidden_cells (hidden_answers_of p)" by blast
  from r s0 have ra: "reduce_all s0 steps g = Inr s" by (simp add: session_def)
  from init_state_state_ok [OF ok vp s0] have i0: "state_ok g s0" .
  from reduce_all_state_ok [OF ok i0 ra] have "state_ok g s" .
  moreover from i0 have "grid_inv g s0" by (simp add: state_ok_def)
  from reduce_all_grid_inv [OF ok this, of steps] ra hc
  have "shape (hidden_cells s) = shape (init_hidden_cells (hidden_answers_of p))" by auto
  ultimately show ?thesis by simp
qed

lemma valid_example: "valid_puzzle build_grid_spec example_puzzle"
  by code_simp

lemma on_move_active:
  "active_cells s = Some cells \<Longrightarrow> cells \<noteq> [] \<Longrightarrow>
   active (on_move s k) = (active s)\<lparr>index := clamp (index (active s) + k) 0 (int (length cells) - 1)\<rparr>"
  by (cases "scope (active s)") (auto simp: on_move_def Let_def active_cells_def get_al_def)

lemma clamp_next: "0 \<le> i \<Longrightarrow> 0 < n \<Longrightarrow> clamp (i + 1) 0 (n - 1) = min (i + 1) (n - 1)"
  by (auto simp: clamp_def)

lemma first_empty_from_full:
  "\<forall>c \<in> set cells. c \<noteq> [] \<Longrightarrow> first_empty_from n cells = 0"
  by (induction cells arbitrary: n) auto

lemma first_empty_from_least:
  "j < length cells \<Longrightarrow> cells ! j = [] \<Longrightarrow> \<forall>k < j. cells ! k \<noteq> [] \<Longrightarrow>
   first_empty_from n cells = int (n + j)"
proof (induction cells arbitrary: n j)
  case Nil
  then show ?case by simp
next
  case (Cons c cells)
  show ?case
  proof (cases j)
    case 0
    with Cons.prems show ?thesis by simp
  next
    case (Suc j')
    from Cons.prems(3) Suc have c: "c \<noteq> []" by auto
    have "first_empty_from (Suc n) cells = int (Suc n + j')"
      using Cons.prems Suc by (intro Cons.IH) auto
    with c Suc show ?thesis by simp
  qed
qed

lemma grid_has_key:
  assumes "grid_ok g" and "shape gc = bar_lengths g"
  shows "has_key gc b = (b \<in> set GRID_ORDER)"
proof -
  have "map fst gc = map fst (shape gc)" by (simp add: shape_def case_prod_beta)
  with assms have k: "map fst gc = GRID_ORDER" by (simp add: grid_ok_def)
  have "has_key gc b = (b \<in> fst ` set gc)"
    by (simp add: has_key_def map_of_eq_None_iff)
  also have "\<dots> = (b \<in> set (map fst gc))" by simp
  finally show ?thesis by (simp only: k)
qed

lemma upper_strip_a: "py_strip (py_upper ''a'') = ''A''"
  by code_simp

lemma norm_letter_a: "pl ''letter'' = Some (PStr ''a'') \<Longrightarrow> norm_letter pl = ''A''"
  by (simp add: norm_letter_def get_def upper_strip_a)

lemma is_AZ_A: "is_AZ ''A''"
  by (simp add: is_AZ_def)

lemma input_letter_written:
  assumes ok: "grid_ok g" and sh: "shape (grid_cells s) = bar_lengths g" and ao: "active_ok s"
    and az: "is_AZ (norm_letter pl)"
  shows "\<exists>s' cells. on_input_letter s pl g = Inr s' \<and> active_cells s = Some cells \<and>
           cell_of (if scope (active s) = Grid then grid_cells s' else hidden_cells s')
                   (bar_id (active s)) (index (active s)) = Some (norm_letter pl) \<and>
           active s' = (active s)\<lparr>index := min (index (active s) + 1) (int (length cells) - 1)\<rparr> \<and>
           (if scope (active s) = Grid then hidden_cells s' = hidden_cells s
            else grid_cells s' = grid_cells s)"
  using ok sh
proof (cases rule: on_input_letter_cases [where s = s and pl = pl])
  case (ignored tag)
  with ao az show ?thesis by simp
next
  case (hidden arr)
  let ?arr' = "arr[nat (index (active s)) := norm_letter pl]"
  let ?s1 = "s\<lparr>hidden_cells := AList.update (bar_id (active s)) ?arr' (hidden_cells s),
             last_action := ''input:hidden''\<rparr>"
  have ne: "?arr' \<noteq> []" using hidden(4,5) by auto
  have ac1: "active_cells ?s1 = Some ?arr'"
    using hidden(2) by (simp add: active_cells_def AList.update_conv')
  have "active (on_move ?s1 1) =
          (active s)\<lparr>index := min (index (active s) + 1) (int (length arr) - 1)\<rparr>"
  proof -
    have c: "clamp (index (active s) + 1) 0 (int (length arr) - 1) =
             min (index (active s) + 1) (int (length arr) - 1)"
      using hidden(4,5) by (intro clamp_next) auto
    show ?thesis using on_move_active [OF ac1 ne, of 1] by (simp add: c)
  qed
  moreover have "cell_of (hidden_cells (on_move ?s1 1)) (bar_id (active s)) (index (active s)) =
          Some (norm_letter pl)"
    using hidden(3,4,5) by (simp add: cell_of_update)
  moreover have "active_cells s = Some arr"
    using hidden(2,3) by (simp add: active_cells_def)
  ultimately show ?thesis using hidden(2,6) by simp
next
  case (grid arr gc')
  let ?s1 = "s\<lparr>grid_cells := gc', last_action := ''input:grid''\<rparr>"
  from grid(3) sh have "map_of (shape gc') (bar_id (active s)) = Some (int (length arr))"
    using map_of_shape [of "grid_cells s" "bar_id (active s)"] by (simp add: grid(6))
  then obtain arr' where arr': "map_of gc' (bar_id (active s)) = Some arr'" "length arr' = length arr"
    using map_of_shape [of gc' "bar_id (active s)"] by (cases "map_of gc' (bar_id (active s))") auto
  have ne: "arr' \<noteq> []" using grid(4,5) arr'(2) by auto
  have ac1: "active_cells ?s1 = Some arr'"
    using grid(2) arr'(1) by (simp add: active_cells_def)
  have "active (on_move ?s1 1) =
          (active s)\<lparr>index := min (index (active s) + 1) (int (length arr) - 1)\<rparr>"
  proof -
    have c: "clamp (index (active s) + 1) 0 (int (length arr) - 1) =
             min (index (active s) + 1) (int (length arr) - 1)"
      using grid(4,5) by (intro clamp_next) auto
    show ?thesis using on_move_active [OF ac1 ne, of 1] arr'(2) by (simp add: c)
  qed
  moreover have "cell_of (grid_cells (on_move ?s1 1)) (bar_id (active s)) (index (active s)) =
          Some (norm_letter pl)"
    using grid(7) by simp
  moreover have "active_cells s = Some arr"
    using grid(2,3) by (simp add: active_cells_def)
  ultimately show ?thesis using grid(2,8) by simp
qed

lemma cleared_at_bookkeeping [simp]:
  "cleared_at g s (accept_client_seq c s') t = cleared_at g s s' t"
  "cleared_at g s (s'\<lparr>last_action := a\<rparr>) t = cleared_at g s s' t"
  "cleared_at g s (s'\<lparr>active := ac\<rparr>) t = cleared_at g s s' t"
  by (simp_all add: cleared_at_def)

lemma backspace_written:
  assumes ok: "grid_ok g" and sh: "shape (grid_cells s) = bar_lengths g" and ao: "active_ok s"
  shows "\<exists>s' cells. on_backspace s g = Inr s' \<and> active_cells s = Some cells \<and>
           (cells ! nat (index (active s)) \<noteq> [] \<longrightarrow>
              active s' = active s \<and> cleared_at g s s' (index (active s))) \<and>
           (cells ! nat (index (active s)) = [] \<and> 0 < index (active s) \<longrightarrow>
              active s' = (active s)\<lparr>index := index (active s) - 1\<rparr> \<and>
              cleared_at g s s' (index (active s) - 1)) \<and>
           (cells ! nat (index (active s)) = [] \<and> index (active s) = 0 \<longrightarrow>
              (\<exists>tag. s' = s\<lparr>last_action := tag\<rparr>))"
  using ok sh
proof (cases rule: on_backspace_cases [where s = s])
  case (noop tag)
  from ao obtain cells where c: "active_cells s = Some cells"
    by (auto simp: active_ok_def split: option.splits)
  with noop ao show ?thesis by auto
next
  case (hidden arr i t)
  have ac: "active_cells s = Some arr" using hidden(1,2) by (simp add: active_cells_def)
  with ao have rng: "0 \<le> index (active s)" "index (active s) < int (length arr)"
    by (simp_all add: active_ok_def)
  then have i: "i = index (active s)" using hidden(4) by (simp add: clamp_id)
  let ?hc = "AList.update (bar_id (active s)) (arr[nat t := []]) (hidden_cells s)"
  from hidden(5) show ?thesis
  proof
    assume a: "arr ! nat i \<noteq> [] \<and> t = i \<and>
          on_backspace s g = Inr (s\<lparr>hidden_cells := ?hc, last_action := ''bksp:hidden_clear''\<rparr>)"
    let ?s' = "s\<lparr>hidden_cells := ?hc, last_action := ''bksp:hidden_clear''\<rparr>"
    have "cleared_at g s ?s' (index (active s))"
      using a i rng hidden(1,2) by (simp add: cleared_at_def cell_of_update)
    with a i ac show ?thesis by auto
  next
    assume a: "arr ! nat i = [] \<and> 0 < i \<and> t = i - 1 \<and>
          on_backspace s g =
            Inr (s\<lparr>hidden_cells := ?hc, active := (active s)\<lparr>index := t\<rparr>,
                   last_action := ''bksp:hidden_prev_clear''\<rparr>)"
    let ?s' = "s\<lparr>hidden_cells := ?hc, active := (active s)\<lparr>index := t\<rparr>,
                   last_action := ''bksp:hidden_prev_clear''\<rparr>"
    have "cleared_at g s ?s' (index (active s) - 1)"
      using a i rng hidden(1,2) by (simp add: cleared_at_def cell_of_update)
    with a i ac show ?thesis by auto
  qed
next
  case (grid arr i t gc')
  have ac: "active_cells s = Some arr" using grid(1,2) by (simp add: active_cells_def)
  with ao have rng: "0 \<le> index (active s)" "index (active s) < int (length arr)"
    by (simp_all add: active_ok_def)
  then have i: "i = index (active s)" using grid(4) by (simp add: clamp_id)
  from grid(7) show ?thesis
  proof
    assume a: "arr ! nat i \<noteq> [] \<and> t = i \<and>
          on_backspace s g = Inr (s\<lparr>grid_cells := gc', last_action := ''bksp:grid_clear''\<rparr>)"
    let ?s' = "s\<lparr>grid_cells := gc', last_action := ''bksp:grid_clear''\<rparr>"
    have "cleared_at g s ?s' (index (active s))"
      using a i grid(1,6) by (simp add: cleared_at_def)
    with a i ac show ?thesis by auto
  next
    assume a: "arr ! nat i = [] \<and> 0 < i \<and> t = i - 1 \<and>
          on_backspace s g =
            Inr (s\<lparr>grid_cells := gc', active := (active s)\<lparr>index := t\<rparr>,
                   last_action := ''bksp:grid_prev_clear''\<rparr>)"
    let ?s' = "s\<lparr>grid_cells := gc', active := (active s)\<lparr>index := t\<rparr>,
                   last_action := ''bksp:grid_prev_clear''\<rparr>"
    have "cleared_at g s ?s' (index (active s) - 1)"
      using a i grid(1,6) by (simp add: cleared_at_def)
    with a i ac show ?thesis by auto
  qed
qed

lemma on_move_core:
  "grid_cells s = grid_cells t \<Longrightarrow> hidden_cells s = hidden_cells t \<Longrightarrow> active s = active t \<Longrightarrow>
   active (on_move s k) = active (on_move t k)"
  by (simp add: on_move_def Let_def)

lemma on_input_letter_state_id:
  "on_input_letter s pl g = Inr s' \<Longrightarrow> state_id s' = state_id s"
  by (auto simp: on_input_letter_def Let_def split: sum.splits if_splits)

lemma on_input_letter_core:
  assumes g: "grid_cells s = grid_cells t" and h: "hidden_cells s = hidden_cells t"
    and a: "active s = active t" and r: "on_input_letter s pl g = Inr s'"
  shows "\<exists>t'. on_input_letter t pl g = Inr t' \<and> grid_cells s' = grid_cells t' \<and>
              hidden_cells s' = hidden_cells t' \<and> active s' = active t'"
proof (cases "length (norm_letter pl) \<noteq> 1 \<or> \<not> is_AZ (norm_letter pl)")
  case True
  with r g h a show ?thesis by (auto simp: on_input_letter_def Let_def)
next
  case az: False
  show ?thesis
  proof (cases "scope (active t)")
    case Hidden
    show ?thesis
    proof (cases "has_key (hidden_cells t) (bar_id (active t))")
      case False
      with r g h a az Hidden show ?thesis by (auto simp: on_input_letter_def Let_def)
    next
      case hk: True
      show ?thesis
      proof (cases "index (active t) < 0 \<or>
                    int (length (get_al (hidden_cells t) (bar_id (active t)) [])) \<le> index (active t)")
        case True
        with r g h a az Hidden hk show ?thesis by (auto simp: on_input_letter_def Let_def)
      next
        case False
        with r g h a az Hidden hk show ?thesis
          by (auto simp: on_input_letter_def Let_def intro!: on_move_core)
      qed
    qed
  next
    case Grid
    show ?thesis
    proof (cases "has_key (grid_cells t) (bar_id (active t))")
      case False
      with r g h a az Grid show ?thesis by (auto simp: on_input_letter_def Let_def)
    next
      case hk: True
      show ?thesis
      proof (cases "index (active t) < 0 \<or>
                    int (length (get_al (grid_cells t) (bar_id (active t)) [])) \<le> index (active t)")
        case True
        with r g h a az Grid hk show ?thesis by (auto simp: on_input_letter_def Let_def)
      next
        case False
        with r g h a az Grid hk show ?thesis
          by (auto simp: on_input_letter_def Let_def split: sum.splits intro!: on_move_core)
      qed
    qed
  qed
qed

lemma reduce_input_core:
  assumes "grid_cells s = grid_cells t" and "hidden_cells s = hidden_cells t"
    and "active s = active t" and "type_ev e = ''INPUT_LETTER''"
    and "reduce env1 s e g = Inr s'"
  shows "\<exists>t'. reduce env2 t e g = Inr t' \<and> grid_cells s' = grid_cells t' \<and>
              hidden_cells s' = hidden_cells t' \<and> active s' = active t' \<and>
              state_id s' = state_id s \<and> state_id t' = state_id t"
proof -
  from assms(4,5) obtain out where o: "on_input_letter s (payload e) g = Inr out"
    and s': "s' = accept_client_seq (client_seq_of (payload e)) out"
    by (auto simp: reduce_simps split: sum.splits)
  from on_input_letter_core [OF assms(1,2,3) o] obtain out' where
    o': "on_input_letter t (payload e) g = Inr out'" "grid_cells out = grid_cells out'"
        "hidden_cells out = hidden_cells out'" "active out = active out'"
    by blast
  have "reduce env2 t e g = Inr (accept_client_seq (client_seq_of (payload e)) out')"
    using assms(4) o'(1) by (simp add: reduce_simps)
  with o' s' on_input_letter_state_id [OF o] on_input_letter_state_id [OF o'(1)]
  show ?thesis by simp
qed

lemma replay_core:
  assumes "\<forall>st \<in> set steps. type_ev (snd st) = ''INPUT_LETTER''"
    and "map snd steps' = map snd steps"
  shows "grid_cells s = grid_cells t \<Longrightarrow> hidden_cells s = hidden_cells t \<Longrightarrow> active s = active t \<Longrightarrow>
         reduce_all s steps g = Inr s' \<Longrightarrow>
         \<exists>t'. reduce_all t steps' g = Inr t' \<and> grid_cells s' = grid_cells t' \<and>
              hidden_cells s' = hidden_cells t' \<and> state_id s' = state_id s \<and>
              state_id t' = state_id t"
  using assms
proof (induction steps arbitrary: steps' s t)
  case Nil
  then show ?case by simp
next
  case (Cons st steps)
  obtain env1 e where st: "st = (env1, e)" by (cases st)
  from Cons.prems(6) st obtain env2 rest where steps': "steps' = (env2, e) # rest"
    and rest: "map snd rest = map snd steps"
    by (cases steps') auto
  from Cons.prems(5) st have te: "type_ev e = ''INPUT_LETTER''"
    and all: "\<forall>st \<in> set steps. type_ev (snd st) = ''INPUT_LETTER''" by auto
  from Cons.prems(4) st obtain s1 where s1: "reduce env1 s e g = Inr s1"
    "reduce_all s1 steps g = Inr s'"
    by (auto split: sum.splits)
  from reduce_input_core [OF Cons.prems(1,2,3) te s1(1), of env2] obtain t1 where
    t1: "reduce env2 t e g = Inr t1" "grid_cells s1 = grid_cells t1"
        "hidden_cells s1 = hidden_cells t1" "active s1 = active t1"
        "state_id s1 = state_id s" "state_id t1 = state_id t"
    by blast
  from Cons.IH [OF t1(2,3,4) s1(2) all rest] obtain t' where
    "reduce_all t1 rest g = Inr t'" "grid_cells s' = grid_cells t'"
    "hidden_cells s' = hidden_cells t'" "state_id s' = state_id s1" "state_id t' = state_id t1"
    by blast
  with t1 steps' show ?case by simp
qed

lemma blank_by_shape:
  "map (\<lambda>(k, arr). (k, map (\<lambda>_. v) arr)) d = map (\<lambda>(k, n). (k, replicate (nat n) v)) (shape d)"
  by (induction d) (auto simp: shape_def map_replicate_const)

lemma all_blank_update:
  "list_all (\<lambda>(k, arr). P arr) d \<Longrightarrow> P arr' \<Longrightarrow> list_all (\<lambda>(k, arr). P arr) (AList.update k arr' d)"
  by (induction d) auto

lemma all_blank_fold:
  "list_all (\<lambda>(k, arr). P arr) acc \<Longrightarrow> (\<And>w. P (h w)) \<Longrightarrow>
   list_all (\<lambda>(k, arr). P arr) (fold (\<lambda>(i, w). AList.update (f i) (h w)) xs acc)"
  by (induction xs arbitrary: acc) (auto simp: all_blank_update)

lemma blank_id:
  "list_all (\<lambda>(k, arr). arr = replicate (length arr) v) d \<Longrightarrow>
   map (\<lambda>(k, arr). (k, map (\<lambda>_. v) arr)) d = d"
  by (induction d) (auto simp: map_replicate_const)

lemma init_hidden_cells_blank:
  "map (\<lambda>(k, arr). (k, map (\<lambda>_. []) arr)) (init_hidden_cells ws) = init_hidden_cells ws"
proof (rule blank_id)
  show "list_all (\<lambda>(k, arr). arr = replicate (length arr) []) (init_hidden_cells ws)"
    unfolding init_hidden_cells_def by (rule all_blank_fold) simp_all
qed

lemma reset_restores_init:
  assumes ok: "grid_ok g" and i: "init_state env0 p g = Inr s0"
    and sg: "shape (grid_cells s) = bar_lengths g"
    and sh: "shape (hidden_cells s) = shape (hidden_cells s0)"
  shows "grid_cells (on_reset env s) = grid_cells s0"
    and "hidden_cells (on_reset env s) = hidden_cells s0"
    and "active (on_reset env s) = active s0"
proof -
  from init_state_ok [OF ok, of env0 p] i
  have gc: "grid_cells s0 = map (\<lambda>(b, n). (b, replicate (nat n) [])) (bar_lengths g)"
    and hc: "hidden_cells s0 = init_hidden_cells (hidden_answers_of p)"
    and ac: "active s0 = \<lparr> scope = Grid, bar_id = ''h1'', index = 0, direction = Horizontal \<rparr>"
    by auto
  show "grid_cells (on_reset env s) = grid_cells s0"
    by (simp add: on_reset_def blank_by_shape sg gc)
  have "hidden_cells (on_reset env s) =
          map (\<lambda>(k, arr). (k, map (\<lambda>_. []) arr)) (hidden_cells s0)"
    by (simp add: on_reset_def blank_by_shape sh)
  then show "hidden_cells (on_reset env s) = hidden_cells s0"
    by (simp add: hc init_hidden_cells_blank)
  show "active (on_reset env s) = active s0"
    by (simp add: on_reset_def ac)
qed

text \<open>
  The hypothesis \<open>valid_puzzle\<close> of the cursor invariant is needed: for a
  \<^verbatim>\<open>Puzzle\<close> built without hidden answers, which \<open>load_puzzle\<close> never returns,
  \<open>init_state\<close> falls back to one hidden bar of length zero, and SET_ACTIVE_BAR with
  scope \<open>hidden\<close> then puts the cursor at index 0 of that empty bar.
\<close>

lemma unvalidated_puzzle_empty_hidden_bar:
  "map_sum id (\<lambda>s. (active s, hidden_cells s))
     (session example_env (example_puzzle\<lparr>answers := Map.empty\<rparr>) build_grid_spec
        [ev ''SET_ACTIVE_BAR'' [(''scope'', PStr ''hidden'')]]) =
   Inr (\<lparr> scope = Hidden, bar_id = ''hidden1'', index = 0, direction = Horizontal \<rparr>,
        [(''hidden1'', [])])"
  by code_simp

section \<open>The claims\<close>

text \<open>
  C1 (cross-link synchronisation). In every state that a session reaches from
  \<open>init_state\<close> under the fixed geometry, by any events with any payloads, the two
  positions paired by \<open>cross_map\<close> exist in \<open>grid_cells\<close> and hold the same letter.
\<close>

theorem cross_link_sync:
  assumes "session env puzzle build_grid_spec steps = Inr s"
    and "map_of (cross_map build_grid_spec) (b, i) = Some (b2, i2)"
  shows "cell_of (grid_cells s) b i = cell_of (grid_cells s) b2 i2 \<and>
         cell_of (grid_cells s) b i \<noteq> None"
proof -
  from session_grid_inv [OF grid_ok_build, of env puzzle steps] assms(1)
  have inv: "grid_inv build_grid_spec s" by auto
  then have sh: "shape (grid_cells s) = bar_lengths build_grid_spec"
    and sync: "cross_sync build_grid_spec (grid_cells s)"
    by (simp_all add: grid_inv_def)
  from assms(2) have "((b, i), (b2, i2)) \<in> set (cross_map build_grid_spec)"
    by (rule map_of_SomeD)
  with sync have eq: "cell_of (grid_cells s) b i = cell_of (grid_cells s) b2 i2"
    by (auto simp: cross_sync_def list_all_iff)
  have "in_bar (bar_lengths build_grid_spec) (b, i)"
    using grid_ok_build assms(2) by (rule grid_ok_pair(2))
  with sh obtain arr where "map_of (grid_cells s) b = Some arr" "0 \<le> i" "i < int (length arr)"
    by (rule in_bar_cells)
  then have "cell_of (grid_cells s) b i \<noteq> None"
    by (simp add: cell_of_def)
  with eq show ?thesis by simp
qed

theorem cross_link_sync_witness:
  "\<exists>s. session example_env example_puzzle build_grid_spec
          [ev ''MOVE_NEXT'' [], ev ''INPUT_LETTER'' [(''letter'', PStr ''Z'')]] = Inr s \<and>
       map_of (cross_map build_grid_spec) (''h1'', 1) = Some (''v1'', 1) \<and>
       cell_of (grid_cells s) ''h1'' 1 = cell_of (grid_cells s) ''v1'' 1 \<and>
       cell_of (grid_cells s) ''h1'' 1 = Some ''Z''"
proof -
  let ?steps = "[ev ''MOVE_NEXT'' [], ev ''INPUT_LETTER'' [(''letter'', PStr ''Z'')]]"
  from session_grid_inv [OF grid_ok_build, of example_env example_puzzle ?steps]
  obtain s where s: "session example_env example_puzzle build_grid_spec ?steps = Inr s" by blast
  have cm: "map_of (cross_map build_grid_spec) (''h1'', 1) = Some (''v1'', 1)"
    by (simp add: cross_map_build)
  have "map_sum id (\<lambda>s. cell_of (grid_cells s) ''h1'' 1)
          (session example_env example_puzzle build_grid_spec ?steps) = Inr (Some ''Z'')"
    by code_simp
  with s have val: "cell_of (grid_cells s) ''h1'' 1 = Some ''Z''" by simp
  from cross_link_sync [OF s cm] s cm val show ?thesis by blast
qed

text \<open>
  C2 (sequence number). As stated the claim fails: RESET sets \<open>last_client_seq\<close> to 0
  before the payload's number is compared, so after RESET the number can fall, and
  with a numeric \<open>client_seq\<close> it is that number or 0, not the maximum with the
  input. The counterexample runs TICK with \<open>client_seq = 5\<close> and then RESET, once
  without and once with \<open>client_seq = 3\<close>.
\<close>

theorem last_client_seq_reset_counterexample:
  "map_sum id last_client_seq
     (session example_env example_puzzle build_grid_spec
        [ev ''TICK'' [(''client_seq'', PInt 5)]]) = Inr 5 \<and>
   map_sum id last_client_seq
     (session example_env example_puzzle build_grid_spec
        [ev ''TICK'' [(''client_seq'', PInt 5)], ev ''RESET'' []]) = Inr 0 \<and>
   map_sum id last_client_seq
     (session example_env example_puzzle build_grid_spec
        [ev ''TICK'' [(''client_seq'', PInt 5)], ev ''RESET'' [(''client_seq'', PInt 3)]]) = Inr 3"
  by code_simp

text \<open>
  C2 as amended. For every state, geometry and event that \<open>reduce\<close> accepts: when
  the event is not RESET the output's \<open>last_client_seq\<close> is the input's if the
  payload has no \<open>client_seq\<close> that \<open>int\<close> converts, and the maximum of the two
  otherwise, hence never less than the input's; when the event is RESET the same
  holds with 0 in place of the input's number.
\<close>

theorem last_client_seq_rule:
  assumes "reduce env s e g = Inr s'"
  shows "last_client_seq s' =
           (let base = (if type_ev e = ''RESET'' then 0 else last_client_seq s)
            in case client_seq_of (payload e) of None \<Rightarrow> base | Some c \<Rightarrow> max base c) \<and>
         (type_ev e \<noteq> ''RESET'' \<longrightarrow> last_client_seq s \<le> last_client_seq s')"
proof (cases e rule: event_type_cases)
  case 1
  with assms show ?thesis
    by (auto simp: reduce_simps accept_client_seq_value dest: on_input_letter_seq
             split: sum.splits option.splits)
next
  case 2
  with assms show ?thesis
    by (auto simp: reduce_simps accept_client_seq_value split: option.splits)
next
  case 3
  with assms show ?thesis
    by (auto simp: reduce_simps accept_client_seq_value split: option.splits)
next
  case 4
  with assms show ?thesis
    by (auto simp: reduce_simps accept_client_seq_value dest: on_set_active_seq
             split: sum.splits option.splits)
next
  case 5
  with assms show ?thesis
    by (auto simp: reduce_simps accept_client_seq_value dest: on_backspace_seq
             split: sum.splits option.splits)
next
  case 6
  with assms show ?thesis
    by (auto simp: reduce_simps accept_client_seq_value on_reset_def split: option.splits)
next
  case 7
  with assms show ?thesis
    by (auto simp: reduce_simps accept_client_seq_value split: option.splits)
next
  case 8
  then have "type_ev e \<noteq> ''RESET''" by auto
  with 8 assms show ?thesis
    by (auto simp: reduce_simps accept_client_seq_value split: option.splits)
qed

theorem last_client_seq_rule_witness:
  "\<exists>s s'. session example_env example_puzzle build_grid_spec
             [ev ''TICK'' [(''client_seq'', PInt 5)]] = Inr s \<and>
          reduce example_env' s \<lparr> type_ev = ''MOVE_NEXT'', payload = [''client_seq'' \<mapsto> PStr '' 7 ''] \<rparr>
             build_grid_spec = Inr s' \<and>
          last_client_seq s = 5 \<and> last_client_seq s' = 7 \<and> last_client_seq s \<le> last_client_seq s'"
proof -
  let ?steps = "[ev ''TICK'' [(''client_seq'', PInt 5)]]"
  let ?e = "\<lparr> type_ev = ''MOVE_NEXT'', payload = [''client_seq'' \<mapsto> PStr '' 7 ''] \<rparr>"
  from session_grid_inv [OF grid_ok_build, of example_env example_puzzle ?steps]
  obtain s where s: "session example_env example_puzzle build_grid_spec ?steps = Inr s"
    and inv: "grid_inv build_grid_spec s" by blast
  from reduce_grid_inv [OF grid_ok_build inv, of example_env' ?e]
  obtain s' where s': "reduce example_env' s ?e build_grid_spec = Inr s'" by blast
  have "map_sum id last_client_seq (session example_env example_puzzle build_grid_spec ?steps) = Inr 5"
    by code_simp
  with s have five: "last_client_seq s = 5" by simp
  have cs: "client_seq_of (payload ?e) = Some 7"
    by code_simp
  from last_client_seq_rule [OF s'] five cs have "last_client_seq s' = 7 \<and> last_client_seq s \<le> last_client_seq s'"
    by simp
  with s s' five show ?thesis by blast
qed

text \<open>
  C3 (scenario B). As stated the claim fails: in the geometry that
  \<open>build_grid_spec\<close> builds, \<open>h1\<close> is row 1 and \<open>v1\<close> is column 1, so \<open>h1\<close> index 1
  is the cell (1, 1), which is \<open>v1\<close> index 1, not index 0. The counterexample moves
  the cursor to \<open>h1\<close> index 1 and types \<open>Z\<close>: \<open>v1\<close> index 0 stays empty.
\<close>

theorem scenario_B_counterexample:
  "map_sum id active
     (session example_env example_puzzle build_grid_spec [ev ''MOVE_NEXT'' []]) =
     Inr \<lparr> scope = Grid, bar_id = ''h1'', index = 1, direction = Horizontal \<rparr> \<and>
   map_sum id (\<lambda>s. (cell_of (grid_cells s) ''h1'' 1, cell_of (grid_cells s) ''v1'' 0))
     (session example_env example_puzzle build_grid_spec
        [ev ''MOVE_NEXT'' [], ev ''INPUT_LETTER'' [(''letter'', PStr ''Z'')]]) =
     Inr (Some ''Z'', Some [])"
  by code_simp

text \<open>
  C3 as amended. Under the fixed geometry, in every state a session reaches whose
  cursor is at grid bar \<open>h1\<close> index 1, INPUT_LETTER with letter \<open>Z\<close> sets both
  \<open>grid_cells.h1[1]\<close> and \<open>grid_cells.v1[1]\<close> to \<open>Z\<close>, and leaves \<open>grid_cells.v1[0]\<close>
  as it was.
\<close>

theorem scenario_B_amended:
  assumes "session env puzzle build_grid_spec steps = Inr s"
    and "scope (active s) = Grid" and "bar_id (active s) = ''h1''" and "index (active s) = 1"
    and "type_ev e = ''INPUT_LETTER''" and "payload e ''letter'' = Some (PStr ''Z'')"
  shows "\<exists>s'. reduce env' s e build_grid_spec = Inr s' \<and>
              cell_of (grid_cells s') ''h1'' 1 = Some ''Z'' \<and>
              cell_of (grid_cells s') ''v1'' 1 = Some ''Z'' \<and>
              cell_of (grid_cells s') ''v1'' 0 = cell_of (grid_cells s) ''v1'' 0"
proof -
  let ?g = build_grid_spec
  from session_grid_inv [OF grid_ok_build, of env puzzle steps] assms(1)
  have inv: "grid_inv ?g s" by auto
  then have sh: "shape (grid_cells s) = bar_lengths ?g" by (simp add: grid_inv_def)
  have L: "norm_letter (payload e) = ''Z''" using assms(6) by (rule norm_letter_Z)
  from sh have "map_of (shape (grid_cells s)) ''h1'' = Some 7" by (simp add: bar_lengths_build)
  then have ao: "active_ok s"
    using assms(2,3,4) by (simp add: active_ok_shape)
  have cm: "map_of (cross_map ?g) (''h1'', 1) = Some (''v1'', 1)" by (simp add: cross_map_build)
  from grid_ok_build sh show ?thesis
  proof (cases rule: on_input_letter_cases [where s = s and pl = "payload e"])
    case (ignored tag)
    with ao L is_AZ_Z show ?thesis by simp
  next
    case (hidden arr)
    with assms(2) show ?thesis by simp
  next
    case (grid arr gc')
    have "reduce env' s e ?g =
            Inr (accept_client_seq (client_seq_of (payload e))
                   (on_move (s\<lparr>grid_cells := gc', last_action := ''input:grid''\<rparr>) 1))"
      using assms(5) grid(8) by (simp add: reduce_simps)
    moreover have "cell_of gc' ''h1'' 1 = Some ''Z''" "cell_of gc' ''v1'' 1 = Some ''Z''"
      "cell_of gc' ''v1'' 0 = cell_of (grid_cells s) ''v1'' 0"
      using grid(7) assms(3,4) L cm by simp_all
    ultimately show ?thesis by simp
  qed
qed

theorem scenario_B_amended_witness:
  "\<exists>s s'. session example_env example_puzzle build_grid_spec [ev ''MOVE_NEXT'' []] = Inr s \<and>
          scope (active s) = Grid \<and> bar_id (active s) = ''h1'' \<and> index (active s) = 1 \<and>
          reduce example_env' s \<lparr> type_ev = ''INPUT_LETTER'', payload = [''letter'' \<mapsto> PStr ''Z''] \<rparr>
            build_grid_spec = Inr s' \<and>
          cell_of (grid_cells s') ''h1'' 1 = Some ''Z'' \<and>
          cell_of (grid_cells s') ''v1'' 1 = Some ''Z'' \<and>
          cell_of (grid_cells s') ''v1'' 0 = Some []"
proof -
  let ?steps = "[ev ''MOVE_NEXT'' []]"
  let ?e = "\<lparr> type_ev = ''INPUT_LETTER'', payload = [''letter'' \<mapsto> PStr ''Z''] \<rparr>"
  from session_grid_inv [OF grid_ok_build, of example_env example_puzzle ?steps]
  obtain s where s: "session example_env example_puzzle build_grid_spec ?steps = Inr s" by blast
  have "map_sum id (\<lambda>s. (active s, cell_of (grid_cells s) ''v1'' 0))
          (session example_env example_puzzle build_grid_spec ?steps) =
        Inr (\<lparr> scope = Grid, bar_id = ''h1'', index = 1, direction = Horizontal \<rparr>, Some [])"
    by code_simp
  with s have a: "active s = \<lparr> scope = Grid, bar_id = ''h1'', index = 1, direction = Horizontal \<rparr>"
    and v: "cell_of (grid_cells s) ''v1'' 0 = Some []" by simp_all
  from a have h: "scope (active s) = Grid" "bar_id (active s) = ''h1''" "index (active s) = 1"
    by simp_all
  have t: "type_ev ?e = ''INPUT_LETTER''" "payload ?e ''letter'' = Some (PStr ''Z'')" by simp_all
  from scenario_B_amended [OF s h t, of example_env'] s h v show ?thesis by auto
qed

text \<open>
  C4 (cursor validity). For a puzzle as \<open>load_puzzle\<close> returns it, in every state a
  session reaches from \<open>init_state\<close> under the fixed geometry the cursor's bar exists
  in the cells of its scope and the cursor's index lies in \<open>[0, length - 1]\<close> of that
  bar.
\<close>

theorem active_cursor_valid:
  assumes "valid_puzzle build_grid_spec puzzle"
    and "session env puzzle build_grid_spec steps = Inr s"
  shows "\<exists>cells. (if scope (active s) = Grid then map_of (grid_cells s) (bar_id (active s))
                   else map_of (hidden_cells s) (bar_id (active s))) = Some cells \<and>
                 0 \<le> index (active s) \<and> index (active s) \<le> int (length cells) - 1"
proof -
  from session_state_ok [OF grid_ok_build assms] have "active_ok s" by (simp add: state_ok_def)
  then show ?thesis
    by (auto simp: active_ok_def active_cells_def split: option.splits if_splits)
qed

theorem active_cursor_valid_witness:
  "\<exists>s. valid_puzzle build_grid_spec example_puzzle \<and>
       session example_env example_puzzle build_grid_spec
         [ev ''SET_ACTIVE_BAR'' [(''scope'', PStr ''hidden''), (''bar_id'', PStr ''nope''),
                                 (''index'', PInt 99)]] = Inr s \<and>
       active s = \<lparr> scope = Hidden, bar_id = ''hidden1'', index = 2, direction = Horizontal \<rparr> \<and>
       (\<exists>cells. (if scope (active s) = Grid then map_of (grid_cells s) (bar_id (active s))
                  else map_of (hidden_cells s) (bar_id (active s))) = Some cells \<and>
                0 \<le> index (active s) \<and> index (active s) \<le> int (length cells) - 1)"
proof -
  let ?steps = "[ev ''SET_ACTIVE_BAR'' [(''scope'', PStr ''hidden''), (''bar_id'', PStr ''nope''),
                                 (''index'', PInt 99)]]"
  from session_grid_inv [OF grid_ok_build, of example_env example_puzzle ?steps]
  obtain s where s: "session example_env example_puzzle build_grid_spec ?steps = Inr s" by blast
  have "map_sum id active (session example_env example_puzzle build_grid_spec ?steps) =
        Inr \<lparr> scope = Hidden, bar_id = ''hidden1'', index = 2, direction = Horizontal \<rparr>"
    by code_simp
  with s have a: "active s = \<lparr> scope = Hidden, bar_id = ''hidden1'', index = 2, direction = Horizontal \<rparr>"
    by simp
  from active_cursor_valid [OF valid_example s] valid_example s a show ?thesis by blast
qed

text \<open>
  C5 (INPUT_LETTER). The letter is \<open>norm_letter\<close> of the payload, that is
  \<^verbatim>\<open>str(payload.get("letter", "")).upper().strip()\<close>. For every state: when it is not
  exactly one character of A-Z the event returns the input state with only
  \<open>last_action\<close> and \<open>last_client_seq\<close> changed. Otherwise, for every state of the
  data model (grid bars at their lengths, cursor on an existing cell), the letter is
  written into the cursor's cell and the cursor's index becomes
  \<open>min (index + 1) (length - 1)\<close> with scope, bar and direction as they were. From a
  fresh \<open>init_state\<close> the letter \<open>a\<close> gives \<open>h1[0] = A\<close> and the cursor at index 1.
\<close>

theorem input_letter_post:
  assumes "type_ev e = ''INPUT_LETTER''"
  shows "(\<not> is_AZ (norm_letter (payload e)) \<longrightarrow>
            (\<exists>n. reduce env s e build_grid_spec =
                    Inr (s\<lparr>last_action := ''input:ignored'', last_client_seq := n\<rparr>))) \<and>
         (is_AZ (norm_letter (payload e)) \<and> shape (grid_cells s) = bar_lengths build_grid_spec \<and>
          active_ok s \<longrightarrow>
            (\<exists>s' cells. reduce env s e build_grid_spec = Inr s' \<and> active_cells s = Some cells \<and>
               cell_of (if scope (active s) = Grid then grid_cells s' else hidden_cells s')
                       (bar_id (active s)) (index (active s)) = Some (norm_letter (payload e)) \<and>
               active s' =
                 (active s)\<lparr>index := min (index (active s) + 1) (int (length cells) - 1)\<rparr>)) \<and>
         (payload e ''letter'' = Some (PStr ''a'') \<longrightarrow>
            (\<forall>s0. init_state env0 puzzle build_grid_spec = Inr s0 \<longrightarrow>
               (\<exists>s'. reduce env s0 e build_grid_spec = Inr s' \<and>
                     cell_of (grid_cells s') ''h1'' 0 = Some ''A'' \<and>
                     active s' = \<lparr> scope = Grid, bar_id = ''h1'', index = 1,
                                   direction = Horizontal \<rparr>)))"
proof -
  let ?g = build_grid_spec
  have general: "\<exists>s' cells. reduce env s e ?g = Inr s' \<and> active_cells s = Some cells \<and>
               cell_of (if scope (active s) = Grid then grid_cells s' else hidden_cells s')
                       (bar_id (active s)) (index (active s)) = Some (norm_letter (payload e)) \<and>
               active s' =
                 (active s)\<lparr>index := min (index (active s) + 1) (int (length cells) - 1)\<rparr>"
    if az: "is_AZ (norm_letter (payload e))" and sh: "shape (grid_cells s) = bar_lengths ?g"
      and ao: "active_ok s" for s
  proof -
    from input_letter_written [OF grid_ok_build sh ao az] obtain out cells where
      o: "on_input_letter s (payload e) ?g = Inr out" "active_cells s = Some cells"
         "cell_of (if scope (active s) = Grid then grid_cells out else hidden_cells out)
                  (bar_id (active s)) (index (active s)) = Some (norm_letter (payload e))"
         "active out = (active s)\<lparr>index := min (index (active s) + 1) (int (length cells) - 1)\<rparr>"
      by blast
    have "reduce env s e ?g = Inr (accept_client_seq (client_seq_of (payload e)) out)"
      using assms o(1) by (simp add: reduce_simps)
    with o show ?thesis by (auto split: if_splits)
  qed
  have bad: "\<exists>n. reduce env s e ?g = Inr (s\<lparr>last_action := ''input:ignored'', last_client_seq := n\<rparr>)"
    if "\<not> is_AZ (norm_letter (payload e))"
  proof -
    let ?s1 = "s\<lparr>last_action := ''input:ignored''\<rparr>"
    from that have "on_input_letter s (payload e) ?g = Inr ?s1"
      by (simp add: on_input_letter_def Let_def)
    with assms have "reduce env s e ?g = Inr (accept_client_seq (client_seq_of (payload e)) ?s1)"
      by (simp add: reduce_simps)
    moreover have "\<exists>n. accept_client_seq (client_seq_of (payload e)) ?s1 = ?s1\<lparr>last_client_seq := n\<rparr>"
      by (rule exI, rule accept_client_seq_eq)
    ultimately show ?thesis by auto
  qed
  have fresh: "\<exists>s'. reduce env s0 e ?g = Inr s' \<and> cell_of (grid_cells s') ''h1'' 0 = Some ''A'' \<and>
                 active s' = \<lparr> scope = Grid, bar_id = ''h1'', index = 1, direction = Horizontal \<rparr>"
    if a: "payload e ''letter'' = Some (PStr ''a'')" and i: "init_state env0 puzzle ?g = Inr s0" for s0
  proof -
    from init_state_ok [OF grid_ok_build, of env0 puzzle] i
    have ac: "active s0 = \<lparr> scope = Grid, bar_id = ''h1'', index = 0, direction = Horizontal \<rparr>"
      by auto
    from init_state_grid_inv [OF grid_ok_build i]
    have sh: "shape (grid_cells s0) = bar_lengths ?g" by (simp add: grid_inv_def)
    then have m: "map_of (shape (grid_cells s0)) ''h1'' = Some 7" by (simp add: bar_lengths_build)
    then have ao: "active_ok s0" by (simp add: active_ok_shape ac)
    have L: "norm_letter (payload e) = ''A''" using a by (rule norm_letter_a)
    from general [OF _ sh ao] L is_AZ_A obtain s' cells where
      r: "reduce env s0 e ?g = Inr s'" "active_cells s0 = Some cells"
         "cell_of (if scope (active s0) = Grid then grid_cells s' else hidden_cells s')
                  (bar_id (active s0)) (index (active s0)) = Some ''A''"
         "active s' = (active s0)\<lparr>index := min (index (active s0) + 1) (int (length cells) - 1)\<rparr>"
      by auto
    from r(2) m have "int (length cells) = 7"
      by (simp add: active_cells_def ac map_of_shape)
    with r show ?thesis by (simp add: ac)
  qed
  from general bad fresh show ?thesis by blast
qed

theorem input_letter_post_witness:
  "\<exists>s0 s'. init_state example_env example_puzzle build_grid_spec = Inr s0 \<and>
     type_ev (snd (ev ''INPUT_LETTER'' [(''letter'', PStr ''a'')])) = ''INPUT_LETTER'' \<and>
     payload (snd (ev ''INPUT_LETTER'' [(''letter'', PStr ''a'')])) ''letter'' = Some (PStr ''a'') \<and>
     is_AZ (norm_letter (payload (snd (ev ''INPUT_LETTER'' [(''letter'', PStr ''a'')])))) \<and>
     shape (grid_cells s0) = bar_lengths build_grid_spec \<and> active_ok s0 \<and>
     reduce example_env' s0 (snd (ev ''INPUT_LETTER'' [(''letter'', PStr ''a'')])) build_grid_spec = Inr s' \<and>
     cell_of (grid_cells s') ''h1'' 0 = Some ''A'' \<and>
     active s' = \<lparr> scope = Grid, bar_id = ''h1'', index = 1, direction = Horizontal \<rparr> \<and>
     type_ev (snd (ev ''INPUT_LETTER'' [(''letter'', PStr ''ab'')])) = ''INPUT_LETTER'' \<and>
     \<not> is_AZ (norm_letter (payload (snd (ev ''INPUT_LETTER'' [(''letter'', PStr ''ab'')])))) \<and>
     (\<exists>n. reduce example_env' s0 (snd (ev ''INPUT_LETTER'' [(''letter'', PStr ''ab'')])) build_grid_spec =
             Inr (s0\<lparr>last_action := ''input:ignored'', last_client_seq := n\<rparr>))"
proof -
  let ?a = "snd (ev ''INPUT_LETTER'' [(''letter'', PStr ''a'')])"
  let ?b = "snd (ev ''INPUT_LETTER'' [(''letter'', PStr ''ab'')])"
  from init_state_ok [OF grid_ok_build, of example_env example_puzzle] obtain s0 where
    i: "init_state example_env example_puzzle build_grid_spec = Inr s0"
    and ac: "active s0 = \<lparr> scope = Grid, bar_id = ''h1'', index = 0, direction = Horizontal \<rparr>"
    by blast
  from init_state_grid_inv [OF grid_ok_build i]
  have sh: "shape (grid_cells s0) = bar_lengths build_grid_spec" by (simp add: grid_inv_def)
  then have "map_of (shape (grid_cells s0)) ''h1'' = Some 7" by (simp add: bar_lengths_build)
  then have ao: "active_ok s0" by (simp add: active_ok_shape ac)
  have ta: "type_ev ?a = ''INPUT_LETTER''" and pa: "payload ?a ''letter'' = Some (PStr ''a'')"
    and tb: "type_ev ?b = ''INPUT_LETTER''"
    by (simp_all add: ev_def)
  have az: "is_AZ (norm_letter (payload ?a))"
    using norm_letter_a [of "payload ?a"] pa is_AZ_A by simp
  have nb: "\<not> is_AZ (norm_letter (payload ?b))" by code_simp
  from input_letter_post [OF ta, of example_env' s0 example_env example_puzzle] pa i
  obtain s' where "reduce example_env' s0 ?a build_grid_spec = Inr s'"
    "cell_of (grid_cells s') ''h1'' 0 = Some ''A''"
    "active s' = \<lparr> scope = Grid, bar_id = ''h1'', index = 1, direction = Horizontal \<rparr>"
    by blast
  moreover from input_letter_post [OF tb, of example_env' s0 example_env example_puzzle] nb
  have "\<exists>n. reduce example_env' s0 ?b build_grid_spec =
             Inr (s0\<lparr>last_action := ''input:ignored'', last_client_seq := n\<rparr>)"
    by blast
  ultimately show ?thesis using i ta pa az sh ao tb nb by blast
qed

text \<open>
  C6 (BACKSPACE). For a puzzle as \<open>load_puzzle\<close> returns it and every state a session
  reaches under the fixed geometry, BACKSPACE returns a state such that: if the
  cursor's cell holds a letter, that cell (and in grid scope its cross-linked
  partner) is cleared, nothing else in the cells changes and the cursor is as it
  was; if the cell is empty and the index is positive, the cursor's index drops by
  one and the cell there is cleared in the same way; if the cell is empty and the
  index is 0, only \<open>last_action\<close> and \<open>last_client_seq\<close> change. Hidden scope clears
  the one cell and has no partner (\<open>cleared_at\<close>).
\<close>

theorem backspace_post:
  assumes "valid_puzzle build_grid_spec puzzle"
    and "session env puzzle build_grid_spec steps = Inr s"
    and "type_ev e = ''BACKSPACE''"
  shows "\<exists>s' cells. reduce env' s e build_grid_spec = Inr s' \<and> active_cells s = Some cells \<and>
           (cells ! nat (index (active s)) \<noteq> [] \<longrightarrow>
              active s' = active s \<and> cleared_at build_grid_spec s s' (index (active s))) \<and>
           (cells ! nat (index (active s)) = [] \<and> 0 < index (active s) \<longrightarrow>
              active s' = (active s)\<lparr>index := index (active s) - 1\<rparr> \<and>
              cleared_at build_grid_spec s s' (index (active s) - 1)) \<and>
           (cells ! nat (index (active s)) = [] \<and> index (active s) = 0 \<longrightarrow>
              (\<exists>tag n. s' = s\<lparr>last_action := tag, last_client_seq := n\<rparr>))"
proof -
  let ?g = build_grid_spec
  from session_state_ok [OF grid_ok_build assms(1,2)]
  have sh: "shape (grid_cells s) = bar_lengths ?g" and ao: "active_ok s"
    by (simp_all add: state_ok_def grid_inv_def)
  from backspace_written [OF grid_ok_build sh ao] obtain out cells where
    o: "on_backspace s ?g = Inr out" "active_cells s = Some cells"
       "cells ! nat (index (active s)) \<noteq> [] \<longrightarrow>
          active out = active s \<and> cleared_at ?g s out (index (active s))"
       "cells ! nat (index (active s)) = [] \<and> 0 < index (active s) \<longrightarrow>
          active out = (active s)\<lparr>index := index (active s) - 1\<rparr> \<and>
          cleared_at ?g s out (index (active s) - 1)"
       "cells ! nat (index (active s)) = [] \<and> index (active s) = 0 \<longrightarrow>
          (\<exists>tag. out = s\<lparr>last_action := tag\<rparr>)"
    by blast
  let ?s' = "accept_client_seq (client_seq_of (payload e)) out"
  have r: "reduce env' s e ?g = Inr ?s'"
    using assms(3) o(1) by (simp add: reduce_simps)
  have e3: "\<exists>tag n. ?s' = s\<lparr>last_action := tag, last_client_seq := n\<rparr>"
    if "\<exists>tag. out = s\<lparr>last_action := tag\<rparr>"
  proof -
    from that obtain tag where t: "out = s\<lparr>last_action := tag\<rparr>" by blast
    have "?s' = out\<lparr>last_client_seq := last_client_seq ?s'\<rparr>" by (rule accept_client_seq_eq)
    then have "?s' = s\<lparr>last_action := tag, last_client_seq := last_client_seq ?s'\<rparr>"
      by (simp add: t)
    then show ?thesis by blast
  qed
  show ?thesis
  proof (intro exI conjI)
    show "reduce env' s e ?g = Inr ?s'" by (rule r)
    show "active_cells s = Some cells" by (rule o(2))
    show "cells ! nat (index (active s)) \<noteq> [] \<longrightarrow>
            active ?s' = active s \<and> cleared_at ?g s ?s' (index (active s))"
      using o(3) by simp
    show "cells ! nat (index (active s)) = [] \<and> 0 < index (active s) \<longrightarrow>
            active ?s' = (active s)\<lparr>index := index (active s) - 1\<rparr> \<and>
            cleared_at ?g s ?s' (index (active s) - 1)"
      using o(4) by simp
    show "cells ! nat (index (active s)) = [] \<and> index (active s) = 0 \<longrightarrow>
            (\<exists>tag n. ?s' = s\<lparr>last_action := tag, last_client_seq := n\<rparr>)"
      using o(5) e3 by blast
  qed
qed

theorem backspace_post_witness:
  "\<exists>s1 s2 s3.
     valid_puzzle build_grid_spec example_puzzle \<and>
     session example_env example_puzzle build_grid_spec
       [ev ''SET_ACTIVE_BAR'' [(''scope'', PStr ''grid''), (''bar_id'', PStr ''h1''), (''index'', PInt 3)],
        ev ''INPUT_LETTER'' [(''letter'', PStr ''m'')], ev ''MOVE_PREV'' []] = Inr s1 \<and>
     active s1 = \<lparr> scope = Grid, bar_id = ''h1'', index = 3, direction = Horizontal \<rparr> \<and>
     cell_of (grid_cells s1) ''h1'' 3 = Some ''M'' \<and> cell_of (grid_cells s1) ''v2'' 1 = Some ''M'' \<and>
     reduce example_env' s1 (snd (ev ''BACKSPACE'' [])) build_grid_spec = Inr s2 \<and>
     active s2 = active s1 \<and>
     cell_of (grid_cells s2) ''h1'' 3 = Some [] \<and> cell_of (grid_cells s2) ''v2'' 1 = Some [] \<and>
     reduce example_env' s2 (snd (ev ''BACKSPACE'' [])) build_grid_spec = Inr s3 \<and>
     active s3 = \<lparr> scope = Grid, bar_id = ''h1'', index = 2, direction = Horizontal \<rparr> \<and>
     cell_of (grid_cells s3) ''h1'' 2 = Some []"
proof -
  let ?g = build_grid_spec
  let ?steps = "[ev ''SET_ACTIVE_BAR'' [(''scope'', PStr ''grid''), (''bar_id'', PStr ''h1''), (''index'', PInt 3)],
        ev ''INPUT_LETTER'' [(''letter'', PStr ''m'')], ev ''MOVE_PREV'' []]"
  let ?b = "ev ''BACKSPACE'' []"
  have tb: "type_ev (snd ?b) = ''BACKSPACE''" by (simp add: ev_def)
  have b: "?b = (fst ?b, snd ?b)" by simp
  from session_grid_inv [OF grid_ok_build, of example_env example_puzzle ?steps]
  obtain s1 where s1: "session example_env example_puzzle ?g ?steps = Inr s1" by blast
  have "map_sum id (\<lambda>s. (active s, active_cells s, cell_of (grid_cells s) ''h1'' 3,
                          cell_of (grid_cells s) ''v2'' 1))
          (session example_env example_puzzle ?g ?steps) =
        Inr (\<lparr> scope = Grid, bar_id = ''h1'', index = 3, direction = Horizontal \<rparr>,
             Some ([] # [] # [] # ''M'' # [] # [] # [] # []), Some ''M'', Some ''M'')"
    by code_simp
  with s1 have a1: "active s1 = \<lparr> scope = Grid, bar_id = ''h1'', index = 3, direction = Horizontal \<rparr>"
    and c1: "active_cells s1 = Some ([] # [] # [] # ''M'' # [] # [] # [] # [])"
    and v1: "cell_of (grid_cells s1) ''h1'' 3 = Some ''M''" "cell_of (grid_cells s1) ''v2'' 1 = Some ''M''"
    by simp_all
  from backspace_post [OF valid_example s1 tb, of example_env'] c1 a1
  obtain s2 where s2: "reduce example_env' s1 (snd ?b) ?g = Inr s2" "active s2 = active s1"
    "cleared_at ?g s1 s2 3"
    by auto
  have cm: "map_of (cross_map ?g) (''h1'', 3) = Some (''v2'', 1)" by (simp add: cross_map_build)
  from s2(3) a1 cm have v2: "cell_of (grid_cells s2) ''h1'' 3 = Some []"
    "cell_of (grid_cells s2) ''v2'' 1 = Some []"
    by (simp_all add: cleared_at_def)
  have cm2: "map_of (cross_map ?g) (''h1'', 2) = None" by (simp add: cross_map_build)
  from s2(3) a1 have h13: "cell_of (grid_cells s2) ''h1'' 3 = Some []"
    by (simp add: cleared_at_def)
  let ?steps2 = "?steps @ [(example_env', snd ?b)]"
  have "session example_env example_puzzle ?g ?steps2 = Inr s2"
  proof -
    have "session example_env example_puzzle ?g ?steps2 =
            (case session example_env example_puzzle ?g ?steps of
               Inl x \<Rightarrow> Inl x | Inr st \<Rightarrow> reduce_all st [(example_env', snd ?b)] ?g)"
      by code_simp
    with s1 s2(1) show ?thesis by simp
  qed
  note sess2 = this
  have "map_sum id active_cells (session example_env example_puzzle ?g ?steps2) =
        Inr (Some (replicate 7 []))"
    by code_simp
  with sess2 have c2: "active_cells s2 = Some (replicate 7 [])" by simp
  from backspace_post [OF valid_example sess2 tb, of example_env'] c2 s2(2) a1
  obtain s3 where s3: "reduce example_env' s2 (snd ?b) ?g = Inr s3"
    "active s3 = (active s2)\<lparr>index := index (active s2) - 1\<rparr>"
    "cleared_at ?g s2 s3 (index (active s2) - 1)"
    by auto
  from s3(2) s2(2) a1 have a3: "active s3 = \<lparr> scope = Grid, bar_id = ''h1'', index = 2, direction = Horizontal \<rparr>"
    by simp
  from s3(3) s2(2) a1 have v3: "cell_of (grid_cells s3) ''h1'' 2 = Some []"
    by (simp add: cleared_at_def)
  from valid_example s1 a1 v1 s2(1,2) v2 s3(1) a3 v3 show ?thesis by blast
qed

text \<open>
  C7 (SET_ACTIVE_BAR). For every state of the data model (grid bars at their lengths,
  at least one hidden bar and none empty) and every payload, with \<open>sc\<close> and \<open>bid\<close> the
  \<^verbatim>\<open>str\<close> of the payload's scope and bar id (defaults \<open>grid\<close> and \<open>h1\<close>): the cells are
  unchanged; the scope is hidden only if \<open>sc\<close> is \<open>hidden\<close>, grid otherwise; in grid
  scope the bar is \<open>bid\<close> if it is one of the six grid bars and \<open>h1\<close> otherwise, with
  direction horizontal for \<open>h1..h3\<close> and vertical for \<open>v1..v3\<close>; in hidden scope the
  bar is \<open>bid\<close> if it is a hidden bar and the first hidden bar otherwise, with
  direction horizontal; without an index (or with \<open>None\<close>) the cursor lands on the
  first empty cell of that bar, scanning from index 0, and on 0 if no cell is empty;
  an index that \<^verbatim>\<open>int\<close> converts is clamped to \<open>[0, length - 1]\<close>, one that it does
  not convert counts as 0.
\<close>

theorem set_active_post:
  assumes "type_ev e = ''SET_ACTIVE_BAR''"
    and "shape (grid_cells s) = bar_lengths build_grid_spec"
    and "hidden_ok (hidden_cells s)"
  shows "\<exists>s' cells.
           reduce env s e build_grid_spec = Inr s' \<and>
           grid_cells s' = grid_cells s \<and> hidden_cells s' = hidden_cells s \<and>
           (let sc = py_str (get (payload e) ''scope'' (PStr ''grid''));
                bid = py_str (get (payload e) ''bar_id'' (PStr ''h1''));
                raw = get (payload e) ''index'' PNone;
                a = active s'
            in scope a = (if sc = ''hidden'' then Hidden else Grid) \<and>
               bar_id a =
                 (if sc = ''hidden''
                  then (if has_key (hidden_cells s) bid then bid else fst (hd (hidden_cells s)))
                  else (if bid \<in> set GRID_ORDER then bid else ''h1'')) \<and>
               direction a =
                 (if sc = ''hidden'' then Horizontal
                  else if bar_id a \<in> set [''h1'', ''h2'', ''h3''] then Horizontal else Vertical) \<and>
               active_cells s' = Some cells \<and>
               0 \<le> index a \<and> index a \<le> int (length cells) - 1 \<and>
               (raw = PNone \<longrightarrow>
                  ((\<forall>c \<in> set cells. c \<noteq> []) \<longrightarrow> index a = 0) \<and>
                  (\<forall>j < length cells. cells ! j = [] \<and> (\<forall>k < j. cells ! k \<noteq> []) \<longrightarrow>
                       index a = int j)) \<and>
               (raw \<noteq> PNone \<longrightarrow>
                  index a = max 0 (min (int (length cells) - 1)
                                       (case py_int raw of None \<Rightarrow> 0 | Some n \<Rightarrow> n))))"
proof -
  let ?g = build_grid_spec
  let ?pl = "payload e"
  let ?sc = "py_str (get ?pl ''scope'' (PStr ''grid''))"
  let ?bid = "py_str (get ?pl ''bar_id'' (PStr ''h1''))"
  let ?raw = "get ?pl ''index'' PNone"
  have idx: "0 \<le> chosen_index ?raw cells \<and> chosen_index ?raw cells \<le> int (length cells) - 1 \<and>
             (?raw = PNone \<longrightarrow>
                  ((\<forall>c \<in> set cells. c \<noteq> []) \<longrightarrow> chosen_index ?raw cells = 0) \<and>
                  (\<forall>j < length cells. cells ! j = [] \<and> (\<forall>k < j. cells ! k \<noteq> []) \<longrightarrow>
                       chosen_index ?raw cells = int j)) \<and>
             (?raw \<noteq> PNone \<longrightarrow>
                  chosen_index ?raw cells =
                    max 0 (min (int (length cells) - 1)
                               (case py_int ?raw of None \<Rightarrow> 0 | Some n \<Rightarrow> n)))"
    if ne: "cells \<noteq> []" for cells
  proof -
    from chosen_index_bounds [OF ne, of ?raw]
    have "0 \<le> chosen_index ?raw cells \<and> chosen_index ?raw cells \<le> int (length cells) - 1"
      by simp
    moreover have "chosen_index ?raw cells = 0"
      if "?raw = PNone" "\<forall>c \<in> set cells. c \<noteq> []"
      using that by (simp add: chosen_index_def first_empty_index_def first_empty_from_full)
    moreover have "chosen_index ?raw cells = int j"
      if "?raw = PNone" "j < length cells" "cells ! j = []" "\<forall>k < j. cells ! k \<noteq> []" for j
      using that first_empty_from_least [of j cells 0]
      by (simp add: chosen_index_def first_empty_index_def)
    moreover have "chosen_index ?raw cells =
                    max 0 (min (int (length cells) - 1)
                               (case py_int ?raw of None \<Rightarrow> 0 | Some n \<Rightarrow> n))"
      if "?raw \<noteq> PNone"
      using that ne by (auto simp: chosen_index_def clamp_def)
    ultimately show ?thesis by blast
  qed
  show ?thesis
  proof (cases "?sc = ''hidden''")
    case False
    let ?b = "if has_key (grid_cells s) ?bid then ?bid else ''h1''"
    from grid_fallback_exists [OF grid_ok_build assms(2), of ?bid] obtain cells where
      c: "map_of (grid_cells s) ?b = Some cells" "cells \<noteq> []" by blast
    let ?s1 = "s\<lparr>active := \<lparr> scope = Grid, bar_id = ?b, index = chosen_index ?raw cells,
                               direction = bar_direction ?b \<rparr>,
                  last_action := ''set_active''\<rparr>"
    let ?s' = "accept_client_seq (client_seq_of ?pl) ?s1"
    from on_set_active_grid [OF False refl c(1)]
    have "on_set_active s ?pl = Inr ?s1" .
    then have r: "reduce env s e ?g = Inr ?s'"
      using assms(1) by (simp add: reduce_simps)
    have hk: "has_key (grid_cells s) ?bid = (?bid \<in> set GRID_ORDER)"
      using grid_ok_build assms(2) by (rule grid_has_key)
    have bin: "?b \<in> set GRID_ORDER" using hk by (simp add: GRID_ORDER_def)
    have dir: "bar_direction ?b = (if ?b \<in> set [''h1'', ''h2'', ''h3''] then Horizontal else Vertical)"
      using bin by (auto simp: bar_direction_def GRID_ORDER_def)
    have ac: "active_cells ?s' = Some cells"
      using c(1) by (simp add: active_cells_def)
    have b: "bar_id (active ?s') = (if ?bid \<in> set GRID_ORDER then ?bid else ''h1'')"
      using hk by simp
    show ?thesis
      apply (rule exI [of _ ?s'], rule exI [of _ cells])
      unfolding Let_def
      using r False ac b dir idx [OF c(2)] by simp
  next
    case True
    let ?b = "if has_key (hidden_cells s) ?bid then ?bid
              else (case hidden_cells s of [] \<Rightarrow> ''hidden1'' | (k, _) # _ \<Rightarrow> k)"
    from hidden_fallback_exists [OF assms(3), of ?bid] obtain cells where
      c: "map_of (hidden_cells s) ?b = Some cells" "cells \<noteq> []" by blast
    let ?s1 = "s\<lparr>active := \<lparr> scope = Hidden, bar_id = ?b, index = chosen_index ?raw cells,
                               direction = Horizontal \<rparr>,
                  last_action := ''set_active''\<rparr>"
    let ?s' = "accept_client_seq (client_seq_of ?pl) ?s1"
    from on_set_active_hidden [OF True refl c(1)]
    have "on_set_active s ?pl = Inr ?s1" .
    then have r: "reduce env s e ?g = Inr ?s'"
      using assms(1) by (simp add: reduce_simps)
    from assms(3) have "(case hidden_cells s of [] \<Rightarrow> ''hidden1'' | (k, _) # _ \<Rightarrow> k) =
                        fst (hd (hidden_cells s))"
      by (cases "hidden_cells s") (auto simp: hidden_ok_def)
    then have b: "bar_id (active ?s') =
                    (if has_key (hidden_cells s) ?bid then ?bid else fst (hd (hidden_cells s)))"
      by simp
    have ac: "active_cells ?s' = Some cells"
      using c(1) by (simp add: active_cells_def)
    show ?thesis
      apply (rule exI [of _ ?s'], rule exI [of _ cells])
      unfolding Let_def
      using r True ac b idx [OF c(2)] by simp
  qed
qed

theorem set_active_post_witness:
  "\<exists>s s'.
     session example_env example_puzzle build_grid_spec
       [ev ''SET_ACTIVE_BAR'' [(''scope'', PStr ''hidden''), (''bar_id'', PStr ''hidden1''), (''index'', PInt 0)],
        ev ''INPUT_LETTER'' [(''letter'', PStr ''a'')], ev ''MOVE_NEXT'' [],
        ev ''INPUT_LETTER'' [(''letter'', PStr ''c'')]] = Inr s \<and>
     hidden_cells s = [(''hidden1'', [''A'', [], ''C''])] \<and>
     type_ev (snd (ev ''SET_ACTIVE_BAR'' [(''scope'', PStr ''hidden''), (''bar_id'', PStr ''hidden1'')])) =
       ''SET_ACTIVE_BAR'' \<and>
     shape (grid_cells s) = bar_lengths build_grid_spec \<and> hidden_ok (hidden_cells s) \<and>
     reduce example_env' s
       (snd (ev ''SET_ACTIVE_BAR'' [(''scope'', PStr ''hidden''), (''bar_id'', PStr ''hidden1'')]))
       build_grid_spec = Inr s' \<and>
     active s' = \<lparr> scope = Hidden, bar_id = ''hidden1'', index = 1, direction = Horizontal \<rparr>"
proof -
  let ?g = build_grid_spec
  let ?steps = "[ev ''SET_ACTIVE_BAR'' [(''scope'', PStr ''hidden''), (''bar_id'', PStr ''hidden1''), (''index'', PInt 0)],
        ev ''INPUT_LETTER'' [(''letter'', PStr ''a'')], ev ''MOVE_NEXT'' [],
        ev ''INPUT_LETTER'' [(''letter'', PStr ''c'')]]"
  let ?e = "snd (ev ''SET_ACTIVE_BAR'' [(''scope'', PStr ''hidden''), (''bar_id'', PStr ''hidden1'')])"
  from session_grid_inv [OF grid_ok_build, of example_env example_puzzle ?steps]
  obtain s where s: "session example_env example_puzzle ?g ?steps = Inr s" by blast
  from session_state_ok [OF grid_ok_build valid_example s]
  have sh: "shape (grid_cells s) = bar_lengths ?g" and hk: "hidden_ok (hidden_cells s)"
    by (simp_all add: state_ok_def grid_inv_def)
  have "map_sum id hidden_cells (session example_env example_puzzle ?g ?steps) =
        Inr [(''hidden1'', [''A'', [], ''C''])]"
    by code_simp
  with s have hc: "hidden_cells s = [(''hidden1'', [''A'', [], ''C''])]" by simp
  have te: "type_ev ?e = ''SET_ACTIVE_BAR''" by (simp add: ev_def)
  have pl: "py_str (get (payload ?e) ''scope'' (PStr ''grid'')) = ''hidden''"
    "py_str (get (payload ?e) ''bar_id'' (PStr ''h1'')) = ''hidden1''"
    "get (payload ?e) ''index'' PNone = PNone"
    by (simp_all add: ev_def get_def)
  from set_active_post [OF te sh hk, of example_env'] obtain s' cells where
    r: "reduce example_env' s ?e ?g = Inr s'" "hidden_cells s' = hidden_cells s"
    and a: "scope (active s') = Hidden" "bar_id (active s') = ''hidden1''"
      "direction (active s') = Horizontal" "active_cells s' = Some cells"
    and j: "\<forall>j < length cells. cells ! j = [] \<and> (\<forall>k < j. cells ! k \<noteq> []) \<longrightarrow>
                 index (active s') = int j"
    unfolding Let_def pl by (auto simp: has_key_def hc)
  from a(1,2,4) r(2) hc have cells: "cells = [''A'', [], ''C'']"
    by (simp add: active_cells_def)
  have "index (active s') = int 1"
    using j unfolding cells by (elim allE [of _ 1]) simp
  with a have "active s' = \<lparr> scope = Hidden, bar_id = ''hidden1'', index = 1, direction = Horizontal \<rparr>"
    by (cases "active s'") simp
  with s hc te sh hk r(1) show ?thesis by blast
qed

text \<open>
  C8 (TICK and unrecognised types). As stated the claim fails for TICK: the branch
  returns the state as it is, so \<open>last_action\<close> still names the previous transition
  and nothing records the TICK. The counterexample types a letter (tag \<open>move\<close>) and
  then sends TICK: the tag is still \<open>move\<close>; an unknown type is tagged.
\<close>

theorem tick_not_recorded_counterexample:
  "map_sum id last_action
     (session example_env example_puzzle build_grid_spec
        [ev ''INPUT_LETTER'' [(''letter'', PStr ''a'')]]) = Inr ''move'' \<and>
   map_sum id last_action
     (session example_env example_puzzle build_grid_spec
        [ev ''INPUT_LETTER'' [(''letter'', PStr ''a'')], ev ''TICK'' []]) = Inr ''move'' \<and>
   map_sum id last_action
     (session example_env example_puzzle build_grid_spec
        [ev ''INPUT_LETTER'' [(''letter'', PStr ''a'')], ev ''NOPE'' []]) = Inr ''ignored:NOPE''"
  by code_simp

text \<open>
  C8 as amended. For every state and geometry: TICK returns the input state with at
  most \<open>last_client_seq\<close> changed, so \<open>grid_cells\<close>, \<open>hidden_cells\<close>, \<open>active\<close>,
  \<open>state_id\<close>, \<open>puzzle_id\<close>, \<open>clue_order\<close>, \<open>start_time\<close> and also \<open>last_action\<close> are
  the input's; an event whose type is none of the seven recognised ones returns the
  input state with \<open>last_action\<close> set to \<open>ignored:\<close> followed by the type, and at
  most \<open>last_client_seq\<close> changed besides.
\<close>

theorem tick_and_unknown_frame:
  "(type_ev e = ''TICK'' \<longrightarrow>
      (\<exists>n. reduce env s e g = Inr (s\<lparr>last_client_seq := n\<rparr>))) \<and>
   (type_ev e \<notin> set [''INPUT_LETTER'', ''MOVE_NEXT'', ''MOVE_PREV'', ''SET_ACTIVE_BAR'',
                      ''BACKSPACE'', ''RESET'', ''TICK''] \<longrightarrow>
      (\<exists>n. reduce env s e g =
             Inr (s\<lparr>last_action := ''ignored:'' @ type_ev e, last_client_seq := n\<rparr>)))"
proof (intro conjI impI)
  assume t: "type_ev e = ''TICK''"
  have "\<exists>n. accept_client_seq (client_seq_of (payload e)) s = s\<lparr>last_client_seq := n\<rparr>"
    by (rule exI, rule accept_client_seq_eq)
  then show "\<exists>n. reduce env s e g = Inr (s\<lparr>last_client_seq := n\<rparr>)"
    using t by (simp add: reduce_simps)
next
  assume t: "type_ev e \<notin> set [''INPUT_LETTER'', ''MOVE_NEXT'', ''MOVE_PREV'', ''SET_ACTIVE_BAR'',
                      ''BACKSPACE'', ''RESET'', ''TICK'']"
  let ?s1 = "s\<lparr>last_action := ''ignored:'' @ type_ev e\<rparr>"
  have "\<exists>n. accept_client_seq (client_seq_of (payload e)) ?s1 = ?s1\<lparr>last_client_seq := n\<rparr>"
    by (rule exI, rule accept_client_seq_eq)
  then show "\<exists>n. reduce env s e g =
             Inr (s\<lparr>last_action := ''ignored:'' @ type_ev e, last_client_seq := n\<rparr>)"
    using t by (simp add: reduce_simps)
qed

theorem tick_and_unknown_frame_witness:
  "\<exists>s. session example_env example_puzzle build_grid_spec
          [ev ''INPUT_LETTER'' [(''letter'', PStr ''a'')]] = Inr s \<and>
        type_ev (snd (ev ''TICK'' [(''client_seq'', PInt 4)])) = ''TICK'' \<and>
        (\<exists>n. reduce example_env s (snd (ev ''TICK'' [(''client_seq'', PInt 4)])) build_grid_spec =
                Inr (s\<lparr>last_client_seq := n\<rparr>)) \<and>
        type_ev (snd (ev ''NOPE'' [])) \<notin> set [''INPUT_LETTER'', ''MOVE_NEXT'', ''MOVE_PREV'',
            ''SET_ACTIVE_BAR'', ''BACKSPACE'', ''RESET'', ''TICK''] \<and>
        (\<exists>n. reduce example_env s (snd (ev ''NOPE'' [])) build_grid_spec =
                Inr (s\<lparr>last_action := ''ignored:'' @ type_ev (snd (ev ''NOPE'' [])),
                       last_client_seq := n\<rparr>))"
proof -
  let ?steps = "[ev ''INPUT_LETTER'' [(''letter'', PStr ''a'')]]"
  from session_grid_inv [OF grid_ok_build, of example_env example_puzzle ?steps]
  obtain s where s: "session example_env example_puzzle build_grid_spec ?steps = Inr s" by blast
  have a: "type_ev (snd (ev ''TICK'' [(''client_seq'', PInt 4)])) = ''TICK''"
    by (simp add: ev_def)
  have b: "type_ev (snd (ev ''NOPE'' [])) \<notin> set [''INPUT_LETTER'', ''MOVE_NEXT'', ''MOVE_PREV'',
       ''SET_ACTIVE_BAR'', ''BACKSPACE'', ''RESET'', ''TICK'']"
    by (simp add: ev_def)
  from s a b tick_and_unknown_frame [of "snd (ev ''TICK'' [(''client_seq'', PInt 4)])" example_env s build_grid_spec]
    tick_and_unknown_frame [of "snd (ev ''NOPE'' [])" example_env s build_grid_spec]
  show ?thesis by blast
qed

text \<open>
  C9 (round trip after RESET). Under the fixed geometry, for every puzzle: let \<open>S\<close> be
  the state that a list of INPUT_LETTER events produces from a fresh \<open>init_state\<close>.
  RESET on \<open>S\<close> followed by the same events (whatever clock and identifier each step
  would draw) returns a state with the \<open>grid_cells\<close> and \<open>hidden_cells\<close> of \<open>S\<close>. Its
  \<open>state_id\<close> is the identifier drawn by RESET and that of \<open>S\<close> is the one drawn by
  \<open>init_state\<close>, so they differ as soon as \<^verbatim>\<open>uuid4\<close> returns two different values.
\<close>

theorem reset_round_trip:
  assumes "init_state env0 puzzle build_grid_spec = Inr s0"
    and "reduce_all s0 steps build_grid_spec = Inr S"
    and "\<forall>st \<in> set steps. type_ev (snd st) = ''INPUT_LETTER''"
    and "type_ev r = ''RESET''"
    and "map snd steps' = map snd steps"
    and "uuid4 envR \<noteq> uuid4 env0"
  shows "\<exists>R T. reduce envR S r build_grid_spec = Inr R \<and>
               reduce_all R steps' build_grid_spec = Inr T \<and>
               grid_cells T = grid_cells S \<and> hidden_cells T = hidden_cells S \<and>
               state_id S = uuid4 env0 \<and> state_id T = uuid4 envR \<and>
               state_id T \<noteq> state_id S"
proof -
  let ?g = build_grid_spec
  note ok = grid_ok_build
  from init_state_grid_inv [OF ok assms(1)] have i0: "grid_inv ?g s0" .
  from reduce_all_grid_inv [OF ok i0, of steps] assms(2)
  have sg: "shape (grid_cells S) = bar_lengths ?g"
    and sh: "shape (hidden_cells S) = shape (hidden_cells s0)"
    by (auto simp: grid_inv_def)
  let ?R = "accept_client_seq (client_seq_of (payload r)) (on_reset envR S)"
  have r: "reduce envR S r ?g = Inr ?R" using assms(4) by (simp add: reduce_simps)
  note rs = reset_restores_init [OF ok assms(1) sg sh, of envR]
  have c: "grid_cells s0 = grid_cells ?R" "hidden_cells s0 = hidden_cells ?R" "active s0 = active ?R"
    using rs by simp_all
  from replay_core [OF assms(3,5) c assms(2)] obtain T where
    t: "reduce_all ?R steps' ?g = Inr T" "grid_cells S = grid_cells T"
       "hidden_cells S = hidden_cells T" "state_id S = state_id s0" "state_id T = state_id ?R"
    by blast
  from init_state_ok [OF ok, of env0 puzzle] assms(1) have id0: "state_id s0 = uuid4 env0" by auto
  have idR: "state_id ?R = uuid4 envR" by (simp add: on_reset_def)
  from r t id0 idR assms(6) show ?thesis by auto
qed

theorem reset_round_trip_witness:
  "\<exists>s0 S R T.
     init_state example_env example_puzzle build_grid_spec = Inr s0 \<and>
     reduce_all s0 [ev ''INPUT_LETTER'' [(''letter'', PStr ''a'')],
                    ev ''INPUT_LETTER'' [(''letter'', PStr ''b'')]] build_grid_spec = Inr S \<and>
     (\<forall>st \<in> set [ev ''INPUT_LETTER'' [(''letter'', PStr ''a'')],
                  ev ''INPUT_LETTER'' [(''letter'', PStr ''b'')]]. type_ev (snd st) = ''INPUT_LETTER'') \<and>
     type_ev (snd (ev ''RESET'' [])) = ''RESET'' \<and>
     uuid4 example_env' \<noteq> uuid4 example_env \<and>
     reduce example_env' S (snd (ev ''RESET'' [])) build_grid_spec = Inr R \<and>
     reduce_all R [ev ''INPUT_LETTER'' [(''letter'', PStr ''a'')],
                   ev ''INPUT_LETTER'' [(''letter'', PStr ''b'')]] build_grid_spec = Inr T \<and>
     grid_cells T = grid_cells S \<and> hidden_cells T = hidden_cells S \<and>
     state_id S = ''id-0'' \<and> state_id T = ''id-1'' \<and> state_id T \<noteq> state_id S \<and>
     cell_of (grid_cells S) ''h1'' 0 = Some ''A'' \<and> cell_of (grid_cells S) ''h1'' 1 = Some ''B''"
proof -
  let ?g = build_grid_spec
  let ?steps = "[ev ''INPUT_LETTER'' [(''letter'', PStr ''a'')],
                 ev ''INPUT_LETTER'' [(''letter'', PStr ''b'')]]"
  from init_state_ok [OF grid_ok_build, of example_env example_puzzle] obtain s0 where
    i: "init_state example_env example_puzzle ?g = Inr s0" by blast
  from reduce_all_grid_inv [OF grid_ok_build init_state_grid_inv [OF grid_ok_build i], of ?steps]
  obtain S where S: "reduce_all s0 ?steps ?g = Inr S" by blast
  have ty: "\<forall>st \<in> set ?steps. type_ev (snd st) = ''INPUT_LETTER''" by (simp add: ev_def)
  have tr: "type_ev (snd (ev ''RESET'' [])) = ''RESET''" by (simp add: ev_def)
  have u: "uuid4 example_env' \<noteq> uuid4 example_env" by (simp add: example_env_def example_env'_def)
  have "session example_env example_puzzle ?g ?steps = Inr S"
    using i S by (simp add: session_def)
  moreover have "map_sum id (\<lambda>s. (cell_of (grid_cells s) ''h1'' 0, cell_of (grid_cells s) ''h1'' 1))
          (session example_env example_puzzle ?g ?steps) = Inr (Some ''A'', Some ''B'')"
    by code_simp
  ultimately have v: "cell_of (grid_cells S) ''h1'' 0 = Some ''A''"
    "cell_of (grid_cells S) ''h1'' 1 = Some ''B''" by simp_all
  from reset_round_trip [OF i S ty tr refl u] obtain R T where
    "reduce example_env' S (snd (ev ''RESET'' [])) ?g = Inr R"
    "reduce_all R ?steps ?g = Inr T" "grid_cells T = grid_cells S"
    "hidden_cells T = hidden_cells S" "state_id S = uuid4 example_env"
    "state_id T = uuid4 example_env'" "state_id T \<noteq> state_id S"
    by blast
  with i S ty tr u v show ?thesis
    by (simp add: example_env_def example_env'_def)
qed

text \<open>
  C10 (totality). Under the fixed geometry a session never raises, whatever the
  puzzle, the event types and the payloads; from every state it reaches, \<open>reduce\<close>
  with any event returns a state in which the grid has its six bars at their lengths
  and cross-linked cells agree. For a puzzle as \<open>load_puzzle\<close> returns it the
  returned state satisfies the whole state invariant (\<open>state_ok\<close>: in addition the
  cursor is on an existing cell, its direction goes with its bar, no hidden bar is
  empty, every cell is empty or one letter of A-Z) and the hidden bars keep the
  lengths they were created with.
\<close>

theorem reduce_total:
  "(\<exists>s. session env puzzle build_grid_spec steps = Inr s) \<and>
   (\<forall>s. session env puzzle build_grid_spec steps = Inr s \<longrightarrow>
      (\<exists>s'. reduce env' s e build_grid_spec = Inr s' \<and> grid_inv build_grid_spec s' \<and>
            (valid_puzzle build_grid_spec puzzle \<longrightarrow>
               state_ok build_grid_spec s' \<and>
               shape (hidden_cells s') = shape (init_hidden_cells (hidden_answers_of puzzle)))))"
proof (intro conjI allI impI)
  show "\<exists>s. session env puzzle build_grid_spec steps = Inr s"
    using session_grid_inv [OF grid_ok_build, of env puzzle steps] by blast
next
  fix s assume s: "session env puzzle build_grid_spec steps = Inr s"
  from session_grid_inv [OF grid_ok_build, of env puzzle steps] s
  have inv: "grid_inv build_grid_spec s" by auto
  from reduce_grid_inv [OF grid_ok_build inv, of env' e] obtain s' where
    s': "reduce env' s e build_grid_spec = Inr s'" "grid_inv build_grid_spec s'"
        "shape (hidden_cells s') = shape (hidden_cells s)" by blast
  have "state_ok build_grid_spec s' \<and>
        shape (hidden_cells s') = shape (init_hidden_cells (hidden_answers_of puzzle))"
    if vp: "valid_puzzle build_grid_spec puzzle"
  proof -
    from session_state_ok [OF grid_ok_build vp s]
    have ok: "state_ok build_grid_spec s"
      and hs: "shape (hidden_cells s) = shape (init_hidden_cells (hidden_answers_of puzzle))"
      by simp_all
    from reduce_state_ok [OF grid_ok_build ok s'(1)] hs s'(3) show ?thesis by simp
  qed
  with s' show "\<exists>s'. reduce env' s e build_grid_spec = Inr s' \<and> grid_inv build_grid_spec s' \<and>
            (valid_puzzle build_grid_spec puzzle \<longrightarrow>
               state_ok build_grid_spec s' \<and>
               shape (hidden_cells s') = shape (init_hidden_cells (hidden_answers_of puzzle)))"
    by blast
qed

theorem reduce_total_witness:
  "\<exists>s s'. valid_puzzle build_grid_spec example_puzzle \<and>
          session example_env example_puzzle build_grid_spec
            [ev ''INPUT_LETTER'' [(''letter'', PStr ''q'')], ev ''BOGUS'' [(''client_seq'', PStr ''x'')]] = Inr s \<and>
          reduce example_env' s
            \<lparr> type_ev = ''SET_ACTIVE_BAR'',
              payload = [''scope'' \<mapsto> PInt 3, ''bar_id'' \<mapsto> PNone, ''index'' \<mapsto> PStr ''abc''] \<rparr>
            build_grid_spec = Inr s' \<and>
          grid_inv build_grid_spec s' \<and> state_ok build_grid_spec s' \<and>
          shape (hidden_cells s') = [(''hidden1'', 3)]"
proof -
  let ?steps = "[ev ''INPUT_LETTER'' [(''letter'', PStr ''q'')], ev ''BOGUS'' [(''client_seq'', PStr ''x'')]]"
  let ?e = "\<lparr> type_ev = ''SET_ACTIVE_BAR'',
              payload = [''scope'' \<mapsto> PInt 3, ''bar_id'' \<mapsto> PNone, ''index'' \<mapsto> PStr ''abc''] \<rparr>"
  have h: "shape (init_hidden_cells (hidden_answers_of example_puzzle)) = [(''hidden1'', 3)]"
    by code_simp
  from reduce_total [of example_env example_puzzle ?steps example_env' ?e] valid_example h
  show ?thesis by auto
qed

end
